theory Spec2Isabelle
  imports Main "HOL-Library.Multiset"
begin

section \<open>Syntax trees\<close>

text \<open>
  The analyzer reads the tree that the standard library parser returns. Four node
  classes are inspected by \<^verbatim>\<open>generate_cfg\<close> (\<^verbatim>\<open>ast.FunctionDef\<close>, \<^verbatim>\<open>ast.If\<close>,
  \<^verbatim>\<open>ast.While\<close>, \<^verbatim>\<open>ast.For\<close>); every other class (\<^verbatim>\<open>Module\<close>, \<^verbatim>\<open>ClassDef\<close>,
  \<^verbatim>\<open>Assign\<close>, \<^verbatim>\<open>Try\<close>, \<^verbatim>\<open>AsyncFunctionDef\<close>, expressions, ...) is the
  constructor \<open>Other_node\<close> with its class name and its child nodes.

  The first field of every constructor is the identity of the Python object, the value
  of \<^verbatim>\<open>id(node)\<close>. The remaining fields hold the child nodes in the order of the
  class's \<^verbatim>\<open>_fields\<close>: \<open>FunctionDef id name args body rest\<close> (\<open>rest\<close> is
  \<^verbatim>\<open>decorator_list\<close> followed by \<^verbatim>\<open>returns\<close>), \<open>If_node id test body orelse\<close>,
  \<open>While_node id test body orelse\<close>, \<open>For_node id target iter body orelse\<close>.
  Operator and context marker objects, which the parser shares between positions,
  have no children and are never a statement; they are not part of the tree.
\<close>

datatype 'i ast =
    FunctionDef 'i string "'i ast" "'i ast list" "'i ast list"
  | If_node 'i "'i ast" "'i ast list" "'i ast list"
  | While_node 'i "'i ast" "'i ast list" "'i ast list"
  | For_node 'i "'i ast" "'i ast" "'i ast list" "'i ast list"
  | Other_node 'i string "'i ast list"

fun py_id :: "'i ast \<Rightarrow> 'i" where
  "py_id (FunctionDef i nm a b r) = i"
| "py_id (If_node i t b e) = i"
| "py_id (While_node i t b e) = i"
| "py_id (For_node i tg it b e) = i"
| "py_id (Other_node i c cs) = i"

text \<open>\<^verbatim>\<open>ast.iter_child_nodes\<close>: the child nodes, field by field.\<close>

fun iter_child_nodes :: "'i ast \<Rightarrow> 'i ast list" where
  "iter_child_nodes (FunctionDef i nm a b r) = a # b @ r"
| "iter_child_nodes (If_node i t b e) = t # b @ e"
| "iter_child_nodes (While_node i t b e) = t # b @ e"
| "iter_child_nodes (For_node i tg it b e) = tg # it # b @ e"
| "iter_child_nodes (Other_node i c cs) = cs"

text \<open>
  \<^verbatim>\<open>ast.walk\<close> keeps a queue: it takes the node at the front, appends that node's
  children at the back and yields the node, until the queue is empty.
\<close>

function walk_queue :: "'i ast list \<Rightarrow> 'i ast list" where
  "walk_queue [] = []"
| "walk_queue (node # todo) = node # walk_queue (todo @ iter_child_nodes node)"
  by pat_completeness auto
termination
proof (relation "measure (\<lambda>q. sum_list (map size q))")
  show "wf (measure (\<lambda>q. sum_list (map size q)))"
    by simp
next
  fix node :: "'i ast" and todo :: "'i ast list"
  have "sum_list (map size (iter_child_nodes node)) < size node"
    by (cases node) (simp_all add: size_list_conv_sum_list)
  then show "(todo @ iter_child_nodes node, node # todo) \<in> measure (\<lambda>q. sum_list (map size q))"
    by simp
qed

definition walk :: "'i ast \<Rightarrow> 'i ast list" where
  "walk node = walk_queue [node]"

section \<open>The graph description\<close>

text \<open>
  A \<^verbatim>\<open>graphviz.Digraph\<close> collects the lines of its body in the order of the calls:
  \<^verbatim>\<open>node(name, label)\<close> appends a node statement, \<^verbatim>\<open>edge(tail, head)\<close> an edge
  statement.
\<close>

datatype 'k dot_stmt = NodeStmt 'k string | EdgeStmt 'k 'k

record digraph =
  comment :: string
  body :: "string dot_stmt list"

definition Digraph :: "string \<Rightarrow> digraph" where
  "Digraph c = \<lparr>comment = c, body = []\<rparr>"

definition Digraph_node :: "digraph \<Rightarrow> string \<Rightarrow> string \<Rightarrow> digraph" where
  "Digraph_node dot name label = dot\<lparr>body := body dot @ [NodeStmt name label]\<rparr>"

definition Digraph_edge :: "digraph \<Rightarrow> string \<Rightarrow> string \<Rightarrow> digraph" where
  "Digraph_edge dot tail_name head_name = dot\<lparr>body := body dot @ [EdgeStmt tail_name head_name]\<rparr>"

text \<open>
  What the rendered graph holds: a node statement sets the label of its node, a later
  statement for the same name replacing an earlier one; an edge statement adds one edge.
\<close>

fun decl_of :: "'k dot_stmt \<Rightarrow> ('k \<times> string) list" where
  "decl_of (NodeStmt k l) = [(k, l)]"
| "decl_of (EdgeStmt a b) = []"

fun edge_of :: "'k dot_stmt \<Rightarrow> ('k \<times> 'k) list" where
  "edge_of (NodeStmt k l) = []"
| "edge_of (EdgeStmt a b) = [(a, b)]"

definition node_decls :: "'k dot_stmt list \<Rightarrow> ('k \<times> string) list" where
  "node_decls b = concat (map decl_of b)"

definition edge_list :: "'k dot_stmt list \<Rightarrow> ('k \<times> 'k) list" where
  "edge_list b = concat (map edge_of b)"

definition label_of :: "'k dot_stmt list \<Rightarrow> 'k \<Rightarrow> string option" where
  "label_of b = map_of (rev (node_decls b))"

definition node_names :: "'k dot_stmt list \<Rightarrow> 'k set" where
  "node_names b = fst ` set (node_decls b) \<union> fst ` set (edge_list b) \<union> snd ` set (edge_list b)"

section \<open>Decimal text of an identity\<close>

text \<open>\<^verbatim>\<open>str\<close> of a non-negative integer: its decimal digits, most significant first.\<close>

definition digit_char :: "nat \<Rightarrow> char" where
  "digit_char d = ''0123456789'' ! d"

function py_str :: "nat \<Rightarrow> string" where
  "py_str n = (if n < 10 then [digit_char n] else py_str (n div 10) @ [digit_char (n mod 10)])"
  by pat_completeness auto
termination
  by (relation "measure (\<lambda>n. n)") simp_all

declare py_str.simps [simp del]

text \<open>Reading the digits back, to see that different identities have different texts.\<close>

definition decimal_value :: "string \<Rightarrow> nat" where
  "decimal_value s = foldl (\<lambda>a c. 10 * a + (of_char c - 48)) 0 s"

section \<open>The control-flow graph builder\<close>

datatype py_error =
    SyntaxError | ValueError | FileNotFoundError | IsADirectoryError | PermissionError
  | UnboundLocalError

text \<open>
  \<^verbatim>\<open>add_cfg_node\<close> is the helper nested in \<^verbatim>\<open>generate_cfg\<close>; the graph it closes over
  is passed in and returned.
\<close>

definition add_cfg_node :: "digraph \<Rightarrow> nat ast \<Rightarrow> string \<Rightarrow> digraph \<times> string" where
  "add_cfg_node dot node label =
     (let node_id = py_str (py_id node)
      in (Digraph_node dot node_id label, node_id))"

text \<open>
  The inner loops \<^verbatim>\<open>for stmt in ...: stmt_node = add_cfg_node(stmt, prefix + dump(stmt));
  dot.edge(parent, stmt_node)\<close>. The standard library's \<^verbatim>\<open>ast.dump\<close> is the parameter
  \<open>dump\<close>.
\<close>

definition add_stmts ::
  "(nat ast \<Rightarrow> string) \<Rightarrow> string \<Rightarrow> string \<Rightarrow> digraph \<Rightarrow> nat ast list \<Rightarrow> digraph" where
  "add_stmts dump prefix parent dot stmts =
     foldl (\<lambda>d stmt. case add_cfg_node d stmt (prefix @ dump stmt) of
                        (d', stmt_node) \<Rightarrow> Digraph_edge d' parent stmt_node) dot stmts"

text \<open>The body of the loop over \<^verbatim>\<open>ast.walk(tree)\<close>: the dispatch on the node's class.\<close>

fun visit_node :: "(nat ast \<Rightarrow> string) \<Rightarrow> digraph \<Rightarrow> nat ast \<Rightarrow> digraph" where
  "visit_node dump dot (FunctionDef i nm a b r) =
     (case add_cfg_node dot (FunctionDef i nm a b r) (''Function: '' @ nm) of
        (dot1, func_node) \<Rightarrow> add_stmts dump ''Statement: '' func_node dot1 b)"
| "visit_node dump dot (If_node i t b e) =
     (case add_cfg_node dot (If_node i t b e) (''If Condition: '' @ dump t) of
        (dot1, if_node) \<Rightarrow>
          add_stmts dump ''Else Statement: '' if_node
            (add_stmts dump ''Statement: '' if_node dot1 b) e)"
| "visit_node dump dot (While_node i t b e) =
     (case add_cfg_node dot (While_node i t b e) (''While Loop: '' @ dump t) of
        (dot1, while_node) \<Rightarrow> add_stmts dump ''Statement: '' while_node dot1 b)"
| "visit_node dump dot (For_node i tg it b e) =
     (case add_cfg_node dot (For_node i tg it b e) (''For Loop: '' @ dump tg) of
        (dot1, for_node) \<Rightarrow> add_stmts dump ''Statement: '' for_node dot1 b)"
| "visit_node dump dot (Other_node i c cs) = dot"

text \<open>The graph that the loop over \<^verbatim>\<open>ast.walk(tree)\<close> leaves, started from a new graph.\<close>

definition build_cfg :: "(nat ast \<Rightarrow> string) \<Rightarrow> nat ast \<Rightarrow> digraph" where
  "build_cfg dump tree = foldl (visit_node dump) (Digraph ''Control Flow Graph'') (walk tree)"

text \<open>
  \<^verbatim>\<open>generate_cfg\<close> runs three statements in order over its local variables
  \<^verbatim>\<open>tree\<close> and \<^verbatim>\<open>dot\<close>, both unbound at entry: \<^verbatim>\<open>tree = ast.parse(code)\<close>,
  \<^verbatim>\<open>dot = graphviz.Digraph(comment='Control Flow Graph')\<close> and the loop; then it
  returns \<^verbatim>\<open>dot\<close>. The parser \<^verbatim>\<open>ast.parse\<close> is the parameter \<open>parse\<close>. A statement
  that raises ends the run, and the outcome keeps the exception together with the local
  variables as they are at that moment.
\<close>

record locals =
  tree_var :: "nat ast option"
  dot_var :: "digraph option"

definition assign_tree ::
  "(string \<Rightarrow> py_error + nat ast) \<Rightarrow> string \<Rightarrow> locals \<Rightarrow> py_error + locals" where
  "assign_tree parse code fr =
     (case parse code of
        Inl err \<Rightarrow> Inl err
      | Inr t \<Rightarrow> Inr (fr\<lparr>tree_var := Some t\<rparr>))"

definition assign_dot :: "locals \<Rightarrow> py_error + locals" where
  "assign_dot fr = Inr (fr\<lparr>dot_var := Some (Digraph ''Control Flow Graph'')\<rparr>)"

definition walk_loop :: "(nat ast \<Rightarrow> string) \<Rightarrow> locals \<Rightarrow> py_error + locals" where
  "walk_loop dump fr =
     (case tree_var fr of
        None \<Rightarrow> Inl UnboundLocalError
      | Some t \<Rightarrow>
          (case dot_var fr of
             None \<Rightarrow> Inl UnboundLocalError
           | Some d \<Rightarrow> Inr (fr\<lparr>dot_var := Some (foldl (visit_node dump) d (walk t))\<rparr>)))"

fun run_steps ::
  "(locals \<Rightarrow> py_error + locals) list \<Rightarrow> locals \<Rightarrow> (py_error \<times> locals) + locals" where
  "run_steps [] fr = Inr fr"
| "run_steps (step # steps) fr =
     (case step fr of
        Inl err \<Rightarrow> Inl (err, fr)
      | Inr fr' \<Rightarrow> run_steps steps fr')"

definition generate_cfg_steps ::
  "(string \<Rightarrow> py_error + nat ast) \<Rightarrow> (nat ast \<Rightarrow> string) \<Rightarrow> string
     \<Rightarrow> (py_error \<times> locals) + locals" where
  "generate_cfg_steps parse dump code =
     run_steps [assign_tree parse code, assign_dot, walk_loop dump]
       \<lparr>tree_var = None, dot_var = None\<rparr>"

definition generate_cfg ::
  "(string \<Rightarrow> py_error + nat ast) \<Rightarrow> (nat ast \<Rightarrow> string) \<Rightarrow> string \<Rightarrow> py_error + digraph" where
  "generate_cfg parse dump code =
     (case generate_cfg_steps parse dump code of
        Inl (err, fr) \<Rightarrow> Inl err
      | Inr fr \<Rightarrow> (case dot_var fr of None \<Rightarrow> Inl UnboundLocalError | Some d \<Rightarrow> Inr d))"

section \<open>The command line\<close>

text \<open>
  What \<^verbatim>\<open>main\<close> asks of the file system: a path names nothing, a directory, or a
  regular file with its text, which the process may or may not read.
  \<^verbatim>\<open>os.path.isfile\<close> is true of a regular file, readable or not; \<^verbatim>\<open>open\<close> in
  \<^verbatim>\<open>load_code\<close> raises where the file cannot be read.
\<close>

datatype fs_entry = RegularFile bool string | Directory

type_synonym filesystem = "string \<Rightarrow> fs_entry option"

definition os_path_isfile :: "filesystem \<Rightarrow> string \<Rightarrow> bool" where
  "os_path_isfile fs path = (case fs path of Some (RegularFile readable text) \<Rightarrow> True | _ \<Rightarrow> False)"

definition load_code :: "filesystem \<Rightarrow> string \<Rightarrow> py_error + string" where
  "load_code fs file_path =
     (case fs file_path of
        None \<Rightarrow> Inl FileNotFoundError
      | Some Directory \<Rightarrow> Inl IsADirectoryError
      | Some (RegularFile readable text) \<Rightarrow> if readable then Inr text else Inl PermissionError)"

text \<open>
  How a run ends: the lines printed, the exit status of the process, the exception that
  ended it if one did (an uncaught exception ends the interpreter with status 1 and a
  traceback on the error stream), and the image files written.
\<close>

record outcome =
  stdout :: "string list"
  exit_code :: nat
  raised :: "py_error option"
  images :: "string list"

definition sys_exit :: "string list \<Rightarrow> nat \<Rightarrow> outcome" where
  "sys_exit printed status = \<lparr>stdout = printed, exit_code = status, raised = None, images = []\<rparr>"

definition uncaught :: "py_error \<Rightarrow> outcome" where
  "uncaught err = \<lparr>stdout = [], exit_code = 1, raised = Some err, images = []\<rparr>"

text \<open>
  \<^verbatim>\<open>main\<close>, with \<^verbatim>\<open>sys.argv\<close> and the file system as arguments. The three output
  stages that follow \<^verbatim>\<open>generate_cfg\<close> (rendering the graph, the memory snapshot and
  the execution of the analyzed code) run in external libraries; their joint outcome is
  the parameter \<open>output_stages\<close>.
\<close>

definition main ::
  "(string \<Rightarrow> py_error + nat ast) \<Rightarrow> (nat ast \<Rightarrow> string) \<Rightarrow> (string \<Rightarrow> digraph \<Rightarrow> outcome)
     \<Rightarrow> string list \<Rightarrow> filesystem \<Rightarrow> outcome" where
  "main parse dump output_stages argv fs =
     (if length argv < 2 then sys_exit [''Usage: python analyze_code.py <python_file>''] 1
      else let input_file = argv ! 1 in
        if \<not> os_path_isfile fs input_file then sys_exit [''File not found: '' @ input_file] 1
        else case load_code fs input_file of
               Inl err \<Rightarrow> uncaught err
             | Inr code \<Rightarrow>
                 (case generate_cfg parse dump code of
                    Inl err \<Rightarrow> uncaught err
                  | Inr cfg \<Rightarrow> output_stages code cfg))"

section \<open>Vocabulary of the properties\<close>

text \<open>The nodes of a tree, parent first (the tree's pre-order).\<close>

fun subnodes :: "'i ast \<Rightarrow> 'i ast list" where
  "subnodes (FunctionDef i nm a b r) =
     FunctionDef i nm a b r # subnodes a @ concat (map subnodes b) @ concat (map subnodes r)"
| "subnodes (If_node i t b e) =
     If_node i t b e # subnodes t @ concat (map subnodes b) @ concat (map subnodes e)"
| "subnodes (While_node i t b e) =
     While_node i t b e # subnodes t @ concat (map subnodes b) @ concat (map subnodes e)"
| "subnodes (For_node i tg it b e) =
     For_node i tg it b e # subnodes tg @ subnodes it
       @ concat (map subnodes b) @ concat (map subnodes e)"
| "subnodes (Other_node i c cs) = Other_node i c cs # concat (map subnodes cs)"

text \<open>The identities of the objects of a tree.\<close>

definition ids :: "'i ast \<Rightarrow> 'i list" where
  "ids t = map py_id (subnodes t)"

text \<open>The name under which \<^verbatim>\<open>add_cfg_node\<close> declares a syntax node.\<close>

abbreviation node_key :: "nat ast \<Rightarrow> string" where
  "node_key n \<equiv> py_str (py_id n)"

text \<open>A construct is a node of one of the four classes the builder dispatches on.\<close>

fun is_construct :: "'i ast \<Rightarrow> bool" where
  "is_construct (Other_node i c cs) = False"
| "is_construct n = True"

text \<open>The statements a construct gets child nodes for: its body, and for an \<^verbatim>\<open>If\<close> its else-branch.\<close>

fun body_stmts :: "'i ast \<Rightarrow> 'i ast list" where
  "body_stmts (FunctionDef i nm a b r) = b"
| "body_stmts (If_node i t b e) = b"
| "body_stmts (While_node i t b e) = b"
| "body_stmts (For_node i tg it b e) = b"
| "body_stmts (Other_node i c cs) = []"

fun else_stmts :: "'i ast \<Rightarrow> 'i ast list" where
  "else_stmts (If_node i t b e) = e"
| "else_stmts n = []"


definition is_body_stmt :: "'i ast \<Rightarrow> 'i ast \<Rightarrow> bool" where
  "is_body_stmt t s = list_ex (\<lambda>p. s \<in> set (body_stmts p @ else_stmts p)) (subnodes t)"

text \<open>
  The syntax of a tree, without the identities of its objects; the labels of the nodes of
  a graph and, for every edge, the labels of its two ends; and the renaming of node names
  that goes with a renaming of identities.
\<close>

definition syntax_of :: "'i ast \<Rightarrow> unit ast" where
  "syntax_of t = map_ast (\<lambda>_. ()) t"

definition node_name_list :: "'k dot_stmt list \<Rightarrow> 'k list" where
  "node_name_list b =
     remdups (map fst (node_decls b) @ map fst (edge_list b) @ map snd (edge_list b))"

definition graph_labels :: "'k dot_stmt list \<Rightarrow> string option list" where
  "graph_labels b = map (label_of b) (node_name_list b)"

definition edge_shape :: "'k dot_stmt list \<Rightarrow> (string option \<times> string option) list" where
  "edge_shape b = map (\<lambda>e. (label_of b (fst e), label_of b (snd e))) (edge_list b)"

definition rename_key :: "(nat \<Rightarrow> nat) \<Rightarrow> string \<Rightarrow> string" where
  "rename_key f k = py_str (f (decimal_value k))"

text \<open>The label of a construct's own node.\<close>

fun own_label :: "(nat ast \<Rightarrow> string) \<Rightarrow> nat ast \<Rightarrow> string" where
  "own_label dump (FunctionDef i nm a b r) = ''Function: '' @ nm"
| "own_label dump (If_node i t b e) = ''If Condition: '' @ dump t"
| "own_label dump (While_node i t b e) = ''While Loop: '' @ dump t"
| "own_label dump (For_node i tg it b e) = ''For Loop: '' @ dump tg"
| "own_label dump (Other_node i c cs) = []"

text \<open>The statements one visit appends to the body of the graph.\<close>

definition emit_stmts ::
  "(nat ast \<Rightarrow> string) \<Rightarrow> string \<Rightarrow> string \<Rightarrow> nat ast list \<Rightarrow> string dot_stmt list" where
  "emit_stmts dump prefix parent stmts =
     concat (map (\<lambda>s. [NodeStmt (py_str (py_id s)) (prefix @ dump s),
                        EdgeStmt parent (py_str (py_id s))]) stmts)"

definition emit :: "(nat ast \<Rightarrow> string) \<Rightarrow> nat ast \<Rightarrow> string dot_stmt list" where
  "emit dump n =
     (if is_construct n
      then NodeStmt (py_str (py_id n)) (own_label dump n)
             # emit_stmts dump ''Statement: '' (py_str (py_id n)) (body_stmts n)
             @ emit_stmts dump ''Else Statement: '' (py_str (py_id n)) (else_stmts n)
      else [])"

text \<open>
  One concrete rendering in the shape of \<^verbatim>\<open>ast.dump\<close>, the class name followed by the
  children in parentheses; it reads the content of a node and never its identity.
\<close>

fun dump_ast :: "'i ast \<Rightarrow> string" where
  "dump_ast (FunctionDef i nm a b r) =
     ''FunctionDef('' @ nm @ '','' @ dump_ast a @ '','' @ concat (map dump_ast b)
       @ '','' @ concat (map dump_ast r) @ '')''"
| "dump_ast (If_node i t b e) =
     ''If('' @ dump_ast t @ '','' @ concat (map dump_ast b) @ '','' @ concat (map dump_ast e) @ '')''"
| "dump_ast (While_node i t b e) =
     ''While('' @ dump_ast t @ '','' @ concat (map dump_ast b) @ '',''
       @ concat (map dump_ast e) @ '')''"
| "dump_ast (For_node i tg it b e) =
     ''For('' @ dump_ast tg @ '','' @ dump_ast it @ '','' @ concat (map dump_ast b) @ '',''
       @ concat (map dump_ast e) @ '')''"
| "dump_ast (Other_node i c cs) = c @ ''('' @ concat (map dump_ast cs) @ '')''"

section \<open>Example trees\<close>

text \<open>The module \<^verbatim>\<open>def f(): pass; pass\<close>.\<close>

definition module_one_function :: "nat ast" where
  "module_one_function =
     Other_node 0 ''Module''
       [FunctionDef 1 ''f'' (Other_node 2 ''arguments'' [])
          [Other_node 3 ''Pass'' [], Other_node 4 ''Pass'' []] []]"

text \<open>The modules \<^verbatim>\<open>if x: pass; pass else: pass\<close>, \<^verbatim>\<open>while x: pass; break else: pass\<close> and
  \<^verbatim>\<open>for x in f(): pass; continue\<close>.\<close>

definition module_one_if :: "nat ast" where
  "module_one_if =
     Other_node 0 ''Module''
       [If_node 1 (Other_node 2 ''Name'' [])
          [Other_node 3 ''Pass'' [], Other_node 4 ''Pass'' []]
          [Other_node 5 ''Pass'' []]]"

definition module_one_while :: "nat ast" where
  "module_one_while =
     Other_node 0 ''Module''
       [While_node 1 (Other_node 2 ''Name'' [])
          [Other_node 3 ''Pass'' [], Other_node 4 ''Break'' []]
          [Other_node 5 ''Pass'' []]]"

definition module_one_for :: "nat ast" where
  "module_one_for =
     Other_node 0 ''Module''
       [For_node 1 (Other_node 2 ''Name'' []) (Other_node 3 ''Call'' [])
          [Other_node 4 ''Pass'' [], Other_node 5 ''Continue'' []] []]"

text \<open>The module \<^verbatim>\<open>while x: if y: pass\<close>.\<close>

definition module_if_in_while :: "nat ast" where
  "module_if_in_while =
     Other_node 0 ''Module''
       [While_node 1 (Other_node 2 ''Name'' [])
          [If_node 3 (Other_node 4 ''Name'' []) [Other_node 5 ''Pass'' []] []] []]"

text \<open>The same module parsed a second time: the same syntax in other objects.\<close>

definition module_if_in_while_rerun :: "nat ast" where
  "module_if_in_while_rerun =
     Other_node 16 ''Module''
       [While_node 11 (Other_node 12 ''Name'' [])
          [If_node 13 (Other_node 14 ''Name'' []) [Other_node 15 ''Pass'' []] []] []]"

text \<open>
  Output stages that all succeed, and a file system with a regular file that the process
  may not read and a directory.
\<close>

definition three_images :: "string \<Rightarrow> digraph \<Rightarrow> outcome" where
  "three_images code cfg =
     \<lparr>stdout = [''Control-Flow Graph saved as cfg'',
                 ''Memory Allocation image saved as memory_allocation.png'',
                 ''Pointer Usage image saved as pointers.png''],
      exit_code = 0, raised = None,
      images = [''cfg.png'', ''memory_allocation.png'', ''pointers.png'']\<rparr>"

definition unreadable_fs :: filesystem where
  "unreadable_fs = [''secret.py'' \<mapsto> RegularFile False ''x = 1'', ''pkg'' \<mapsto> Directory]"

section \<open>Basic facts\<close>

lemma digit_char_value: "d < 10 \<Longrightarrow> of_char (digit_char d) - 48 = (d::nat)"
proof -
  assume "d < 10"
  then consider "d = 0" | "d = 1" | "d = 2" | "d = 3" | "d = 4" | "d = 5" | "d = 6" | "d = 7"
    | "d = 8" | "d = 9"
    by atomize_elim arith
  then show ?thesis
    by cases (simp_all add: digit_char_def)
qed

lemma decimal_value_py_str: "decimal_value (py_str n) = n"
proof (induction n rule: py_str.induct)
  case (1 n)
  show ?case
  proof (cases "n < 10")
    case True
    then show ?thesis
      by (simp add: py_str.simps [of n] decimal_value_def digit_char_value)
  next
    case False
    with 1 have "decimal_value (py_str (n div 10)) = n div 10" by simp
    with False show ?thesis
      by (simp add: py_str.simps [of n] decimal_value_def digit_char_value)
  qed
qed

lemma py_str_inject: "py_str n = py_str m \<longleftrightarrow> n = m"
  by (metis decimal_value_py_str)

lemma sum_size_children: "sum_list (map size (iter_child_nodes n)) < size n"
  by (cases n) (simp_all add: size_list_conv_sum_list)

lemma size_child: "c \<in> set (iter_child_nodes n) \<Longrightarrow> size c < size n"
  using sum_size_children [of n] member_le_sum_list [of "size c" "map size (iter_child_nodes n)"]
  by force

lemma children_induct [case_names node]:
  assumes "\<And>n. (\<And>c. c \<in> set (iter_child_nodes n) \<Longrightarrow> P c) \<Longrightarrow> P n"
  shows "P t"
proof (induction t rule: measure_induct_rule [of size])
  case (less n)
  show ?case by (rule assms) (simp add: less size_child)
qed

lemma subnodes_children: "subnodes n = n # concat (map subnodes (iter_child_nodes n))"
  by (cases n) simp_all

lemma mset_walk_queue: "mset (walk_queue q) = mset (concat (map subnodes q))"
proof (induction q rule: walk_queue.induct)
  case 1
  show ?case by simp
next
  case (2 node todo)
  then show ?case by (simp add: subnodes_children [of node])
qed

lemma mset_walk: "mset (walk t) = mset (subnodes t)"
  by (simp add: walk_def mset_walk_queue subnodes_children [of t])

lemma set_walk: "set (walk t) = set (subnodes t)"
  using mset_walk [of t] by (metis set_mset_mset)

lemma body_add_stmts:
  "body (add_stmts dump prefix parent dot stmts) = body dot @ emit_stmts dump prefix parent stmts"
proof (induction stmts arbitrary: dot)
  case Nil
  show ?case by (simp add: add_stmts_def emit_stmts_def)
next
  case (Cons s stmts)
  have "add_stmts dump prefix parent dot (s # stmts) =
          add_stmts dump prefix parent
            (Digraph_edge (Digraph_node dot (py_str (py_id s)) (prefix @ dump s))
               parent (py_str (py_id s))) stmts"
    by (simp add: add_stmts_def add_cfg_node_def Let_def)
  then show ?case
    by (simp add: Cons.IH Digraph_edge_def Digraph_node_def emit_stmts_def)
qed

lemma body_visit_node: "body (visit_node dump dot n) = body dot @ emit dump n"
  by (cases n)
     (simp_all add: emit_def add_cfg_node_def Let_def body_add_stmts Digraph_node_def
        emit_stmts_def)

lemma body_foldl_visit:
  "body (foldl (visit_node dump) dot ns) = body dot @ concat (map (emit dump) ns)"
  by (induction ns arbitrary: dot) (simp_all add: body_visit_node)

lemma body_build_cfg: "body (build_cfg dump t) = concat (map (emit dump) (walk t))"
  by (simp add: build_cfg_def body_foldl_visit Digraph_def)

lemma generate_cfg_steps_ok:
  "parse code = Inr t \<Longrightarrow>
     generate_cfg_steps parse dump code
       = Inr \<lparr>tree_var = Some t, dot_var = Some (build_cfg dump t)\<rparr>"
  by (simp add: generate_cfg_steps_def assign_tree_def assign_dot_def walk_loop_def build_cfg_def)

lemma generate_cfg_steps_raise:
  "parse code = Inl err \<Longrightarrow>
     generate_cfg_steps parse dump code = Inl (err, \<lparr>tree_var = None, dot_var = None\<rparr>)"
  by (simp add: generate_cfg_steps_def assign_tree_def)

lemma generate_cfg_eq:
  "generate_cfg parse dump code =
     (case parse code of Inl err \<Rightarrow> Inl err | Inr tree \<Rightarrow> Inr (build_cfg dump tree))"
  by (cases "parse code")
     (simp_all add: generate_cfg_def generate_cfg_steps_ok generate_cfg_steps_raise)

lemma emit_not_construct: "\<not> is_construct n \<Longrightarrow> emit dump n = []"
  by (simp add: emit_def)

section \<open>One visit, and the graph of a tree with a single construct\<close>

lemma concat_emit_filter:
  "concat (map (emit dump) xs) = concat (map (emit dump) (filter is_construct xs))"
  by (induction xs) (simp_all add: emit_not_construct)

lemma filter_walk_single:
  assumes "filter is_construct (subnodes t) = [c]"
  shows "filter is_construct (walk t) = [c]"
proof -
  have "mset (filter is_construct (walk t)) = mset (filter is_construct (subnodes t))"
    by (simp add: mset_walk)
  with assms have "mset (filter is_construct (walk t)) = {#c#}"
    by simp
  then show ?thesis
    by (simp only: mset_single_iff)
qed

lemma single_construct_body:
  assumes "filter is_construct (subnodes t) = [c]"
  shows "body (build_cfg dump t) = emit dump c"
  using filter_walk_single [OF assms] concat_emit_filter [of dump "walk t"]
  by (simp add: body_build_cfg)

lemma node_decls_simps:
  "node_decls [] = []"
  "node_decls (NodeStmt k l # xs) = (k, l) # node_decls xs"
  "node_decls (EdgeStmt a b # xs) = node_decls xs"
  "node_decls (xs @ ys) = node_decls xs @ node_decls ys"
  by (simp_all add: node_decls_def)

lemma edge_list_simps:
  "edge_list [] = []"
  "edge_list (NodeStmt k l # xs) = edge_list xs"
  "edge_list (EdgeStmt a b # xs) = (a, b) # edge_list xs"
  "edge_list (xs @ ys) = edge_list xs @ edge_list ys"
  by (simp_all add: edge_list_def)

lemma node_decls_emit_stmts:
  "node_decls (emit_stmts dump prefix parent stmts) = map (\<lambda>s. (node_key s, prefix @ dump s)) stmts"
  by (induction stmts) (simp_all add: emit_stmts_def node_decls_simps)

lemma edge_list_emit_stmts:
  "edge_list (emit_stmts dump prefix parent stmts) = map (\<lambda>s. (parent, node_key s)) stmts"
  by (induction stmts) (simp_all add: emit_stmts_def edge_list_simps)

lemma node_decls_emit:
  "is_construct c \<Longrightarrow> node_decls (emit dump c) =
     (node_key c, own_label dump c)
       # map (\<lambda>s. (node_key s, ''Statement: '' @ dump s)) (body_stmts c)
       @ map (\<lambda>s. (node_key s, ''Else Statement: '' @ dump s)) (else_stmts c)"
  by (simp add: emit_def node_decls_simps node_decls_emit_stmts)

lemma not_construct_stmts: "\<not> is_construct c \<Longrightarrow> body_stmts c = [] \<and> else_stmts c = []"
  by (cases c) simp_all

lemma edge_list_emit:
  "edge_list (emit dump c) = map (\<lambda>s. (node_key c, node_key s)) (body_stmts c @ else_stmts c)"
  by (cases "is_construct c")
     (simp_all add: emit_def edge_list_simps edge_list_emit_stmts not_construct_stmts)

lemma subnodes_sublist:
  "c \<in> set (subnodes t) \<Longrightarrow> \<exists>pre post. subnodes t = pre @ subnodes c @ post"
proof (induction t rule: children_induct)
  case (node n)
  show ?case
  proof (cases "c = n")
    case True
    then show ?thesis by (metis append_Nil append_Nil2)
  next
    case False
    with node.prems obtain x where x: "x \<in> set (iter_child_nodes n)" "c \<in> set (subnodes x)"
      by (auto simp: subnodes_children [of n])
    from node.IH [OF x] obtain pre post where pp: "subnodes x = pre @ subnodes c @ post"
      by blast
    from x(1) obtain as bs where "iter_child_nodes n = as @ x # bs"
      by (meson split_list)
    then have "subnodes n = (n # concat (map subnodes as) @ pre) @ subnodes c
                 @ (post @ concat (map subnodes bs))"
      by (simp add: subnodes_children [of n] pp)
    then show ?thesis by blast
  qed
qed

lemma root_in_subnodes: "n \<in> set (subnodes n)"
  by (cases n) simp_all

lemma child_in_subnodes:
  "y \<in> set xs \<Longrightarrow> y \<in> set (concat (map subnodes xs))"
  using root_in_subnodes by auto

lemma distinct_roots:
  "distinct (map py_id (concat (map subnodes xs))) \<Longrightarrow> distinct (map py_id xs)"
proof (induction xs)
  case Nil
  show ?case by simp
next
  case (Cons x xs)
  from Cons.prems have "distinct (map py_id xs)"
    by (simp add: Cons.IH)
  moreover have "py_id x \<notin> py_id ` set xs"
    using Cons.prems root_in_subnodes [of x] child_in_subnodes [of _ xs] by auto
  ultimately show ?case by simp
qed

lemma stmts_children:
  "set (body_stmts c) \<subseteq> set (iter_child_nodes c)" "set (else_stmts c) \<subseteq> set (iter_child_nodes c)"
  by (cases c; auto)+

lemma stmts_subseq: "\<exists>pre post. iter_child_nodes c = pre @ body_stmts c @ else_stmts c @ post"
proof (cases c)
  case (FunctionDef i nm a b r)
  then have "iter_child_nodes c = [a] @ body_stmts c @ else_stmts c @ r" by simp
  then show ?thesis by blast
next
  case (If_node i t b e)
  then have "iter_child_nodes c = [t] @ body_stmts c @ else_stmts c @ []" by simp
  then show ?thesis by blast
next
  case (While_node i t b e)
  then have "iter_child_nodes c = [t] @ body_stmts c @ else_stmts c @ e" by simp
  then show ?thesis by blast
next
  case (For_node i tg it b e)
  then have "iter_child_nodes c = [tg, it] @ body_stmts c @ else_stmts c @ e" by simp
  then show ?thesis by blast
next
  case (Other_node i cl cs)
  then have "iter_child_nodes c = [] @ body_stmts c @ else_stmts c @ cs" by simp
  then show ?thesis by blast
qed

lemma distinct_local:
  assumes "distinct (ids t)" and "c \<in> set (subnodes t)"
  shows "distinct (map py_id (c # body_stmts c @ else_stmts c))"
proof -
  from subnodes_sublist [OF assms(2)] obtain pre post
    where "subnodes t = pre @ subnodes c @ post" by blast
  with assms(1) have d: "distinct (map py_id (subnodes c))"
    by (simp add: ids_def)
  then have d1: "distinct (map py_id (concat (map subnodes (iter_child_nodes c))))"
    and d2: "py_id c \<notin> py_id ` set (concat (map subnodes (iter_child_nodes c)))"
    by (simp_all add: subnodes_children [of c])
  from distinct_roots [OF d1] have d3: "distinct (map py_id (iter_child_nodes c))" .
  obtain pre' post' where pp: "iter_child_nodes c = pre' @ body_stmts c @ else_stmts c @ post'"
    using stmts_subseq by blast
  from d3 have "distinct (map py_id (body_stmts c @ else_stmts c))"
    by (auto simp: pp)
  moreover have "py_id c \<notin> py_id ` set (body_stmts c @ else_stmts c)"
    using d2 stmts_children [of c] child_in_subnodes [of _ "iter_child_nodes c"] by auto
  ultimately show ?thesis by auto
qed

lemma node_names_append: "node_names (xs @ ys) = node_names xs \<union> node_names ys"
  by (auto simp: node_names_def node_decls_simps edge_list_simps)

lemma node_names_concat: "node_names (concat xss) = (\<Union>xs \<in> set xss. node_names xs)"
  by (induction xss) (simp_all add: node_names_append, simp add: node_names_def node_decls_simps edge_list_simps)

lemma node_names_emit:
  "node_names (emit dump c) =
     (if is_construct c then node_key ` set (c # body_stmts c @ else_stmts c) else {})"
proof (cases "is_construct c")
  case True
  have "node_names (emit dump c) = set (map fst (node_decls (emit dump c)))
          \<union> set (map fst (edge_list (emit dump c))) \<union> set (map snd (edge_list (emit dump c)))"
    by (simp add: node_names_def)
  also have "\<dots> = node_key ` set (c # body_stmts c @ else_stmts c)"
    using True by (simp add: node_decls_emit edge_list_emit o_def) auto
  finally show ?thesis
    using True by simp
next
  case False
  then show ?thesis
    by (simp add: emit_def node_names_def node_decls_simps edge_list_simps)
qed

lemma node_names_build:
  "node_names (body (build_cfg dump t)) =
     (\<Union>c \<in> {c \<in> set (subnodes t). is_construct c}. node_key ` set (c # body_stmts c @ else_stmts c))"
  by (simp add: body_build_cfg node_names_concat node_names_emit set_walk) auto

lemma distinct_keys: "distinct (map py_id xs) \<Longrightarrow> distinct (map node_key xs)"
  by (simp add: distinct_map inj_on_def py_str_inject)

lemma label_of_distinct:
  assumes "distinct (map fst (node_decls b))"
  shows "label_of b k = Some l \<longleftrightarrow> (k, l) \<in> set (node_decls b)"
proof -
  from assms have "distinct (map fst (rev (node_decls b)))"
    by (simp add: rev_map [symmetric])
  then show ?thesis
    by (simp add: label_of_def)
qed

lemma single_construct_shape:
  assumes "filter is_construct (subnodes t) = [c]" and "distinct (ids t)"
  shows "body (build_cfg dump t) = emit dump c"
    and "card (node_names (body (build_cfg dump t))) = 1 + length (body_stmts c) + length (else_stmts c)"
    and "edge_list (body (build_cfg dump t)) =
           map (\<lambda>s. (node_key c, node_key s)) (body_stmts c @ else_stmts c)"
    and "node_key c \<notin> snd ` set (edge_list (body (build_cfg dump t)))"
    and "label_of (body (build_cfg dump t)) (node_key c) = Some (own_label dump c)"
    and "\<And>s. s \<in> set (body_stmts c) \<Longrightarrow>
           label_of (body (build_cfg dump t)) (node_key s) = Some (''Statement: '' @ dump s)"
    and "\<And>s. s \<in> set (else_stmts c) \<Longrightarrow>
           label_of (body (build_cfg dump t)) (node_key s) = Some (''Else Statement: '' @ dump s)"
proof -
  have "c \<in> set (filter is_construct (subnodes t))"
    by (simp add: assms(1))
  then have c_in: "c \<in> set (subnodes t)" and c_con: "is_construct c"
    by simp_all
  show b: "body (build_cfg dump t) = emit dump c"
    by (rule single_construct_body [OF assms(1)])
  have d: "distinct (map node_key (c # body_stmts c @ else_stmts c))"
    by (rule distinct_keys [OF distinct_local [OF assms(2) c_in]])
  have "node_names (emit dump c) = set (map node_key (c # body_stmts c @ else_stmts c))"
    using c_con by (simp add: node_names_emit image_Un)
  then have "card (node_names (emit dump c)) = length (map node_key (c # body_stmts c @ else_stmts c))"
    using distinct_card [OF d] by simp
  then show "card (node_names (body (build_cfg dump t))) = 1 + length (body_stmts c) + length (else_stmts c)"
    by (simp add: b)
  show e: "edge_list (body (build_cfg dump t)) =
           map (\<lambda>s. (node_key c, node_key s)) (body_stmts c @ else_stmts c)"
    by (simp add: b edge_list_emit)
  show "node_key c \<notin> snd ` set (edge_list (body (build_cfg dump t)))"
    using d by (auto simp: e)
  have fst_decls: "map fst (node_decls (emit dump c)) = map node_key (c # body_stmts c @ else_stmts c)"
    using c_con by (simp add: node_decls_emit o_def)
  have dd: "distinct (map fst (node_decls (emit dump c)))"
    using d by (simp only: fst_decls)
  show "label_of (body (build_cfg dump t)) (node_key c) = Some (own_label dump c)"
    using c_con by (simp add: b label_of_distinct [OF dd] node_decls_emit)
  show "label_of (body (build_cfg dump t)) (node_key s) = Some (''Statement: '' @ dump s)"
    if "s \<in> set (body_stmts c)" for s
    using c_con that by (simp add: b label_of_distinct [OF dd] node_decls_emit image_iff) blast
  show "label_of (body (build_cfg dump t)) (node_key s) = Some (''Else Statement: '' @ dump s)"
    if "s \<in> set (else_stmts c)" for s
    using c_con that by (simp add: b label_of_distinct [OF dd] node_decls_emit image_iff) blast
qed

lemma sum_list_walk: "sum_list (map f (walk t)) = (sum_list (map f (subnodes t)) :: nat)"
proof -
  have "mset (map f (walk t)) = mset (map f (subnodes t))"
    by (simp add: mset_walk)
  then show ?thesis
    by (metis sum_mset_sum_list)
qed

lemma sum_list_filter_zero:
  "(\<And>x. \<not> P x \<Longrightarrow> f x = (0::nat)) \<Longrightarrow> sum_list (map f (filter P xs)) = sum_list (map f xs)"
  by (induction xs) simp_all

lemma length_node_decls_concat:
  "length (node_decls (concat xss)) = sum_list (map (\<lambda>xs. length (node_decls xs)) xss)"
  by (induction xss) (simp_all add: node_decls_simps)

lemma length_edge_list_concat:
  "length (edge_list (concat xss)) = sum_list (map (\<lambda>xs. length (edge_list xs)) xss)"
  by (induction xss) (simp_all add: edge_list_simps)

lemma length_node_decls_build:
  "length (node_decls (body (build_cfg dump t))) =
     (\<Sum>c\<leftarrow>filter is_construct (subnodes t). 1 + length (body_stmts c) + length (else_stmts c))"
proof -
  let ?f = "\<lambda>n. length (node_decls (emit dump n))"
  have "length (node_decls (body (build_cfg dump t))) = sum_list (map ?f (subnodes t))"
    by (simp add: body_build_cfg length_node_decls_concat o_def sum_list_walk)
  also have "\<dots> = sum_list (map ?f (filter is_construct (subnodes t)))"
    by (rule sum_list_filter_zero [symmetric]) (simp add: emit_def node_decls_simps)
  also have "\<dots> = (\<Sum>c\<leftarrow>filter is_construct (subnodes t).
                       1 + length (body_stmts c) + length (else_stmts c))"
    by (rule arg_cong [where f = sum_list]) (simp add: node_decls_emit)
  finally show ?thesis .
qed

lemma length_edge_list_build:
  "length (edge_list (body (build_cfg dump t))) =
     (\<Sum>c\<leftarrow>filter is_construct (subnodes t). length (body_stmts c) + length (else_stmts c))"
proof -
  let ?f = "\<lambda>n. length (edge_list (emit dump n))"
  have "length (edge_list (body (build_cfg dump t))) = sum_list (map ?f (subnodes t))"
    by (simp add: body_build_cfg length_edge_list_concat o_def sum_list_walk)
  also have "\<dots> = sum_list (map ?f (filter is_construct (subnodes t)))"
    by (rule sum_list_filter_zero [symmetric]) (simp add: emit_def edge_list_simps)
  also have "\<dots> = (\<Sum>c\<leftarrow>filter is_construct (subnodes t).
                       length (body_stmts c) + length (else_stmts c))"
    by (simp add: edge_list_emit)
  finally show ?thesis .
qed

section \<open>Trees without constructs\<close>

text \<open>
  C6. If the syntax tree holds no function definition, conditional or loop, the builder
  returns a graph without nodes and without edges: every other node class is passed
  over, adding nothing to the body of the graph.
\<close>

theorem no_constructs_empty_graph:
  assumes "parse code = Inr tree"
    and "\<forall>n \<in> set (subnodes tree). \<not> is_construct n"
  shows "\<exists>g. generate_cfg parse dump code = Inr g \<and> body g = []
           \<and> node_names (body g) = {} \<and> edge_list (body g) = []"
proof -
  have "\<forall>n \<in> set (walk tree). emit dump n = []"
    using assms(2) by (simp add: set_walk emit_not_construct)
  then have "body (build_cfg dump tree) = []"
    by (simp add: body_build_cfg)
  then show ?thesis
    using assms(1) by (simp add: generate_cfg_eq node_names_def edge_list_def node_decls_def)
qed

theorem no_constructs_empty_graph_witness:
  "(\<lambda>c. Inr (Other_node 0 ''Module'' [Other_node 1 ''Pass'' []])) ''pass''
      = (Inr (Other_node 0 ''Module'' [Other_node 1 ''Pass'' []]) :: py_error + nat ast)
   \<and> filter is_construct (subnodes (Other_node (0::nat) ''Module'' [Other_node 1 ''Pass'' []])) = []
   \<and> (\<exists>g. generate_cfg (\<lambda>c. Inr (Other_node 0 ''Module'' [Other_node 1 ''Pass'' []]))
              dump_ast ''pass'' = Inr g
          \<and> body g = [] \<and> node_names (body g) = {} \<and> edge_list (body g) = [])"
  using no_constructs_empty_graph
    [of "\<lambda>c. Inr (Other_node 0 ''Module'' [Other_node 1 ''Pass'' []])" "''pass''"
        "Other_node 0 ''Module'' [Other_node 1 ''Pass'' []]" dump_ast]
  by simp

section \<open>Parse failures\<close>

text \<open>
  C9. When the parser rejects the source text, the run of \<^verbatim>\<open>generate_cfg\<close> ends at
  its first statement: the parser's exception is the outcome, it is not caught, and at
  that moment neither \<^verbatim>\<open>tree\<close> nor \<^verbatim>\<open>dot\<close> is bound, so no graph description,
  and with it no node and no edge, exists.
\<close>

theorem parse_failure_propagates:
  assumes "parse code = Inl err"
  shows "generate_cfg_steps parse dump code = Inl (err, \<lparr>tree_var = None, dot_var = None\<rparr>)
         \<and> generate_cfg parse dump code = Inl err"
  using assms
  by (simp add: generate_cfg_def generate_cfg_steps_def assign_tree_def)

theorem parse_failure_propagates_witness:
  "generate_cfg_steps (\<lambda>c. Inl SyntaxError) dump_ast ''def f(:''
     = Inl (SyntaxError, \<lparr>tree_var = None, dot_var = None\<rparr>)
   \<and> generate_cfg (\<lambda>c. Inl SyntaxError) dump_ast ''def f(:'' = Inl SyntaxError"
  using parse_failure_propagates [of "\<lambda>c. Inl SyntaxError" "''def f(:''" SyntaxError dump_ast]
  by simp

section \<open>Functions\<close>

text \<open>
  C1. Every function definition, conditional, while-loop and for-loop of the tree
  contributes one node statement of its own and one per immediate statement of its body
  (and of the else-branch of a conditional), each of the latter with one edge; the nodes
  of the graph are those of the constructs and of their immediate statements. When the
  only construct of the tree is a function with body \<open>b\<close> (and identities are
  distinct), the graph has \<open>1 + length b\<close> nodes and \<open>length b\<close> edges, all leaving
  the function's node.
\<close>

theorem function_graph_shape:
  "length (node_decls (body (build_cfg dump t))) =
     (\<Sum>c\<leftarrow>filter is_construct (subnodes t). 1 + length (body_stmts c) + length (else_stmts c))
   \<and> length (edge_list (body (build_cfg dump t))) =
     (\<Sum>c\<leftarrow>filter is_construct (subnodes t). length (body_stmts c) + length (else_stmts c))
   \<and> node_names (body (build_cfg dump t)) =
       (\<Union>c \<in> {c \<in> set (subnodes t). is_construct c}.
          node_key ` set (c # body_stmts c @ else_stmts c))
   \<and> (filter is_construct (subnodes t) = [FunctionDef i nm a b r] \<and> distinct (ids t) \<longrightarrow>
        card (node_names (body (build_cfg dump t))) = 1 + length b
        \<and> length (edge_list (body (build_cfg dump t))) = length b
        \<and> (\<forall>e \<in> set (edge_list (body (build_cfg dump t))). fst e = py_str i)
        \<and> label_of (body (build_cfg dump t)) (py_str i) = Some (''Function: '' @ nm))"
proof -
  have "card (node_names (body (build_cfg dump t))) = 1 + length b
        \<and> length (edge_list (body (build_cfg dump t))) = length b
        \<and> (\<forall>e \<in> set (edge_list (body (build_cfg dump t))). fst e = py_str i)
        \<and> label_of (body (build_cfg dump t)) (py_str i) = Some (''Function: '' @ nm)"
    if h: "filter is_construct (subnodes t) = [FunctionDef i nm a b r]" "distinct (ids t)"
    using single_construct_shape(2) [OF h, of dump] single_construct_shape(3) [OF h, of dump]
      single_construct_shape(5) [OF h, of dump]
    by auto
  then show ?thesis
    using length_node_decls_build [of dump t] length_edge_list_build [of dump t]
      node_names_build [of dump t]
    by blast
qed

theorem function_graph_shape_witness:
  "filter is_construct (subnodes module_one_function)
     = [FunctionDef 1 ''f'' (Other_node 2 ''arguments'' [])
          [Other_node 3 ''Pass'' [], Other_node 4 ''Pass'' []] []]
   \<and> distinct (ids module_one_function)
   \<and> card (node_names (body (build_cfg dump_ast module_one_function))) = 3
   \<and> length (edge_list (body (build_cfg dump_ast module_one_function))) = 2
   \<and> fst ` set (edge_list (body (build_cfg dump_ast module_one_function))) \<subseteq> {py_str 1}"
proof -
  have h: "filter is_construct (subnodes module_one_function)
     = [FunctionDef 1 ''f'' (Other_node 2 ''arguments'' [])
          [Other_node 3 ''Pass'' [], Other_node 4 ''Pass'' []] []]"
    "distinct (ids module_one_function)"
    by (simp_all add: module_one_function_def ids_def)
  from h function_graph_shape [of dump_ast module_one_function 1 "''f''"
      "Other_node 2 ''arguments'' []" "[Other_node 3 ''Pass'' [], Other_node 4 ''Pass'' []]" "[]"]
  show ?thesis by auto
qed

section \<open>Conditionals\<close>

text \<open>
  C3. When the only construct of the tree is a conditional with then-body \<open>b\<close> and
  else-body \<open>e\<close>, the graph has \<open>1 + length b + length e\<close> nodes and
  \<open>length b + length e\<close> edges, all leaving the conditional's node; a then-statement is
  labelled \<^verbatim>\<open>Statement: ...\<close>, an else-statement \<^verbatim>\<open>Else Statement: ...\<close>, and the
  two labels are never equal.
\<close>

theorem conditional_graph_shape:
  assumes "filter is_construct (subnodes t) = [If_node i c b e]" and "distinct (ids t)"
  shows "card (node_names (body (build_cfg dump t))) = 1 + length b + length e
    \<and> length (edge_list (body (build_cfg dump t))) = length b + length e
    \<and> (\<forall>ed \<in> set (edge_list (body (build_cfg dump t))). fst ed = py_str i)
    \<and> label_of (body (build_cfg dump t)) (py_str i) = Some (''If Condition: '' @ dump c)
    \<and> (\<forall>s \<in> set b. label_of (body (build_cfg dump t)) (node_key s)
          = Some (''Statement: '' @ dump s))
    \<and> (\<forall>s \<in> set e. label_of (body (build_cfg dump t)) (node_key s)
          = Some (''Else Statement: '' @ dump s))
    \<and> (\<forall>s \<in> set b. \<forall>s' \<in> set e.
          label_of (body (build_cfg dump t)) (node_key s)
            \<noteq> label_of (body (build_cfg dump t)) (node_key s'))"
  using single_construct_shape(2) [OF assms, of dump] single_construct_shape(3) [OF assms, of dump]
    single_construct_shape(5) [OF assms, of dump] single_construct_shape(6) [OF assms, of _ dump]
    single_construct_shape(7) [OF assms, of _ dump]
  by auto

theorem conditional_graph_shape_witness:
  "filter is_construct (subnodes module_one_if)
     = [If_node 1 (Other_node 2 ''Name'' [])
          [Other_node 3 ''Pass'' [], Other_node 4 ''Pass'' []] [Other_node 5 ''Pass'' []]]
   \<and> distinct (ids module_one_if)
   \<and> card (node_names (body (build_cfg dump_ast module_one_if))) = 4
   \<and> length (edge_list (body (build_cfg dump_ast module_one_if))) = 3
   \<and> label_of (body (build_cfg dump_ast module_one_if)) (py_str 1) = Some ''If Condition: Name()''
   \<and> label_of (body (build_cfg dump_ast module_one_if)) (py_str 3) = Some ''Statement: Pass()''
   \<and> label_of (body (build_cfg dump_ast module_one_if)) (py_str 5)
        = Some ''Else Statement: Pass()''"
proof -
  have h: "filter is_construct (subnodes module_one_if)
     = [If_node 1 (Other_node 2 ''Name'' [])
          [Other_node 3 ''Pass'' [], Other_node 4 ''Pass'' []] [Other_node 5 ''Pass'' []]]"
    "distinct (ids module_one_if)"
    by (simp_all add: module_one_if_def ids_def)
  from conditional_graph_shape [OF h, of dump_ast] h
  show ?thesis by simp
qed

section \<open>Loops\<close>

text \<open>
  C4. When the only construct of the tree is a loop with body \<open>b\<close>, the graph has
  \<open>1 + length b\<close> nodes and one edge from the loop's node to each body statement, in
  order, and no edge leads to the loop's node. The node of a while-loop is labelled with
  the dump of the loop's test, the node of a for-loop with the dump of its target.
\<close>

theorem loop_graph_shape:
  "(filter is_construct (subnodes t) = [While_node i c b e] \<and> distinct (ids t) \<longrightarrow>
      card (node_names (body (build_cfg dump t))) = 1 + length b
      \<and> edge_list (body (build_cfg dump t)) = map (\<lambda>s. (py_str i, node_key s)) b
      \<and> py_str i \<notin> snd ` set (edge_list (body (build_cfg dump t)))
      \<and> label_of (body (build_cfg dump t)) (py_str i) = Some (''While Loop: '' @ dump c))
   \<and> (filter is_construct (subnodes t) = [For_node i tg it b e] \<and> distinct (ids t) \<longrightarrow>
      card (node_names (body (build_cfg dump t))) = 1 + length b
      \<and> edge_list (body (build_cfg dump t)) = map (\<lambda>s. (py_str i, node_key s)) b
      \<and> py_str i \<notin> snd ` set (edge_list (body (build_cfg dump t)))
      \<and> label_of (body (build_cfg dump t)) (py_str i) = Some (''For Loop: '' @ dump tg))"
proof -
  have "card (node_names (body (build_cfg dump t))) = 1 + length b
      \<and> edge_list (body (build_cfg dump t)) = map (\<lambda>s. (py_str i, node_key s)) b
      \<and> py_str i \<notin> snd ` set (edge_list (body (build_cfg dump t)))
      \<and> label_of (body (build_cfg dump t)) (py_str i) = Some (''While Loop: '' @ dump c)"
    if h: "filter is_construct (subnodes t) = [While_node i c b e]" "distinct (ids t)"
    using single_construct_shape(2) [OF h, of dump] single_construct_shape(3) [OF h, of dump]
      single_construct_shape(4) [OF h, of dump] single_construct_shape(5) [OF h, of dump]
    by simp
  moreover have "card (node_names (body (build_cfg dump t))) = 1 + length b
      \<and> edge_list (body (build_cfg dump t)) = map (\<lambda>s. (py_str i, node_key s)) b
      \<and> py_str i \<notin> snd ` set (edge_list (body (build_cfg dump t)))
      \<and> label_of (body (build_cfg dump t)) (py_str i) = Some (''For Loop: '' @ dump tg)"
    if h: "filter is_construct (subnodes t) = [For_node i tg it b e]" "distinct (ids t)"
    using single_construct_shape(2) [OF h, of dump] single_construct_shape(3) [OF h, of dump]
      single_construct_shape(4) [OF h, of dump] single_construct_shape(5) [OF h, of dump]
    by simp
  ultimately show ?thesis by blast
qed

theorem loop_graph_shape_witness:
  "filter is_construct (subnodes module_one_while)
     = [While_node 1 (Other_node 2 ''Name'' [])
          [Other_node 3 ''Pass'' [], Other_node 4 ''Break'' []] [Other_node 5 ''Pass'' []]]
   \<and> distinct (ids module_one_while)
   \<and> card (node_names (body (build_cfg dump_ast module_one_while))) = 3
   \<and> edge_list (body (build_cfg dump_ast module_one_while))
        = [(py_str 1, py_str 3), (py_str 1, py_str 4)]
   \<and> label_of (body (build_cfg dump_ast module_one_while)) (py_str 1)
        = Some ''While Loop: Name()''
   \<and> filter is_construct (subnodes module_one_for)
     = [For_node 1 (Other_node 2 ''Name'' []) (Other_node 3 ''Call'' [])
          [Other_node 4 ''Pass'' [], Other_node 5 ''Continue'' []] []]
   \<and> distinct (ids module_one_for)
   \<and> card (node_names (body (build_cfg dump_ast module_one_for))) = 3
   \<and> edge_list (body (build_cfg dump_ast module_one_for))
        = [(py_str 1, py_str 4), (py_str 1, py_str 5)]
   \<and> label_of (body (build_cfg dump_ast module_one_for)) (py_str 1)
        = Some ''For Loop: Name()''"
proof -
  have h: "filter is_construct (subnodes module_one_while)
     = [While_node 1 (Other_node 2 ''Name'' [])
          [Other_node 3 ''Pass'' [], Other_node 4 ''Break'' []] [Other_node 5 ''Pass'' []]]"
    "distinct (ids module_one_while)"
    by (simp_all add: module_one_while_def ids_def)
  have k: "filter is_construct (subnodes module_one_for)
     = [For_node 1 (Other_node 2 ''Name'' []) (Other_node 3 ''Call'' [])
          [Other_node 4 ''Pass'' [], Other_node 5 ''Continue'' []] []]"
    "distinct (ids module_one_for)"
    by (simp_all add: module_one_for_def ids_def)
  from h loop_graph_shape [where t = module_one_while and i = 1
      and c = "Other_node 2 ''Name'' []"
      and b = "[Other_node 3 ''Pass'' [], Other_node 4 ''Break'' []]"
      and e = "[Other_node 5 ''Pass'' []]" and dump = dump_ast]
  have w: "card (node_names (body (build_cfg dump_ast module_one_while))) = 3
   \<and> edge_list (body (build_cfg dump_ast module_one_while))
        = [(py_str 1, py_str 3), (py_str 1, py_str 4)]
   \<and> label_of (body (build_cfg dump_ast module_one_while)) (py_str 1)
        = Some ''While Loop: Name()''"
    by simp
  from k loop_graph_shape [where t = module_one_for and i = 1
      and tg = "Other_node 2 ''Name'' []" and it = "Other_node 3 ''Call'' []"
      and b = "[Other_node 4 ''Pass'' [], Other_node 5 ''Continue'' []]"
      and e = "[]" and dump = dump_ast]
  have f: "card (node_names (body (build_cfg dump_ast module_one_for))) = 3
   \<and> edge_list (body (build_cfg dump_ast module_one_for))
        = [(py_str 1, py_str 4), (py_str 1, py_str 5)]
   \<and> label_of (body (build_cfg dump_ast module_one_for)) (py_str 1)
        = Some ''For Loop: Name()''"
    by simp
  from h k w f show ?thesis by simp
qed

section \<open>Incoming edges\<close>

lemma set_edge_list_concat: "set (edge_list (concat xss)) = (\<Union>xs \<in> set xss. set (edge_list xs))"
  by (induction xss) (simp_all add: edge_list_simps)

lemma edge_set_build:
  "set (edge_list (body (build_cfg dump t))) =
     (\<Union>p \<in> set (subnodes t). (\<lambda>s. (node_key p, node_key s)) ` set (body_stmts p @ else_stmts p))"
  by (simp add: body_build_cfg set_edge_list_concat set_walk edge_list_emit image_Un)

lemma stmt_in_subnodes:
  assumes "p \<in> set (subnodes t)" and "s \<in> set (body_stmts p @ else_stmts p)"
  shows "s \<in> set (subnodes t)"
proof -
  from subnodes_sublist [OF assms(1)] obtain pre post
    where "subnodes t = pre @ subnodes p @ post" by blast
  moreover have "s \<in> set (iter_child_nodes p)"
    using assms(2) stmts_children [of p] by auto
  then have "s \<in> set (subnodes p)"
    using child_in_subnodes [of s "iter_child_nodes p"] by (simp add: subnodes_children [of p])
  ultimately show ?thesis by simp
qed

lemma construct_of_stmt: "s \<in> set (body_stmts p @ else_stmts p) \<Longrightarrow> is_construct p"
  using not_construct_stmts [of p] by (cases "is_construct p") auto




section \<open>Constructs that are body statements\<close>

lemma label_of_append: "label_of (xs @ ys) = label_of xs ++ label_of ys"
  by (simp add: label_of_def node_decls_simps)

lemma label_of_None: "label_of b k = None \<longleftrightarrow> k \<notin> fst ` set (node_decls b)"
  by (simp add: label_of_def map_of_eq_None_iff)

lemma label_of_last_decl:
  "label_of b k = Some l \<Longrightarrow>
     \<exists>xs zs. b = xs @ NodeStmt k l # zs \<and> k \<notin> fst ` set (node_decls zs)"
proof (induction b rule: rev_induct)
  case Nil
  then show ?case by (simp add: label_of_def node_decls_simps)
next
  case (snoc x b)
  show ?case
  proof (cases "\<exists>l'. x = NodeStmt k l'")
    case True
    then obtain l' where x: "x = NodeStmt k l'" by blast
    with snoc.prems have "l' = l"
      by (simp add: label_of_append) (simp add: label_of_def node_decls_simps)
    with x have "b @ [x] = b @ NodeStmt k l # [] \<and> k \<notin> fst ` set (node_decls [])"
      by (simp add: node_decls_simps)
    then show ?thesis by blast
  next
    case False
    then have nx: "k \<notin> fst ` set (node_decls [x])"
      by (cases x) (auto simp: node_decls_simps)
    then have "label_of [x] k = None"
      by (simp add: label_of_None)
    with snoc.prems have "label_of b k = Some l"
      by (simp add: label_of_append map_add_def)
    from snoc.IH [OF this] obtain xs zs
      where "b = xs @ NodeStmt k l # zs" "k \<notin> fst ` set (node_decls zs)" by blast
    with nx have "b @ [x] = xs @ NodeStmt k l # (zs @ [x]) \<and> k \<notin> fst ` set (node_decls (zs @ [x]))"
      by (simp add: node_decls_simps image_Un)
    then show ?thesis by blast
  qed
qed

lemma subnodes_subset: "n \<in> set (subnodes r) \<Longrightarrow> set (subnodes n) \<subseteq> set (subnodes r)"
  using subnodes_sublist [of n r] by auto

lemma decl_keys_emit: "fst ` set (node_decls (emit dump n)) \<subseteq> node_key ` set (subnodes n)"
proof (cases "is_construct n")
  case True
  have "set (body_stmts n @ else_stmts n) \<subseteq> set (subnodes n)"
    using stmt_in_subnodes [OF root_in_subnodes [of n]] by blast
  then show ?thesis
    using True root_in_subnodes [of n] by (auto simp: node_decls_emit)
next
  case False
  then show ?thesis by (simp add: emit_def node_decls_simps)
qed

lemma set_node_decls_concat:
  "set (node_decls (concat xss)) = (\<Union>xs \<in> set xss. set (node_decls xs))"
  by (induction xss) (simp_all add: node_decls_simps)

lemma set_walk_queue: "set (walk_queue q) = set (concat (map subnodes q))"
  using mset_walk_queue [of q] by (metis set_mset_mset)

lemma decl_keys_walk:
  "fst ` set (node_decls (concat (map (emit dump) (walk_queue q))))
     \<subseteq> node_key ` set (concat (map subnodes q))"
proof
  fix k
  assume "k \<in> fst ` set (node_decls (concat (map (emit dump) (walk_queue q))))"
  then obtain n where n: "n \<in> set (walk_queue q)" and k: "k \<in> fst ` set (node_decls (emit dump n))"
    by (auto simp: set_node_decls_concat)
  from n obtain r where r: "r \<in> set q" "n \<in> set (subnodes r)"
    by (auto simp: set_walk_queue)
  from k decl_keys_emit obtain m where m: "m \<in> set (subnodes n)" "k = node_key m"
    by blast
  from m(1) subnodes_subset [OF r(2)] have "m \<in> set (subnodes r)" by blast
  with r(1) m(2) show "k \<in> node_key ` set (concat (map subnodes q))"
    by auto
qed

lemma label_of_own:
  assumes "is_construct n" and "node_key n \<notin> node_key ` set (body_stmts n @ else_stmts n)"
  shows "label_of (emit dump n) (node_key n) = Some (own_label dump n)"
proof -
  let ?rest = "emit_stmts dump ''Statement: '' (node_key n) (body_stmts n)
                 @ emit_stmts dump ''Else Statement: '' (node_key n) (else_stmts n)"
  have e: "emit dump n = [NodeStmt (node_key n) (own_label dump n)] @ ?rest"
    using assms(1) by (simp add: emit_def)
  have "fst ` set (node_decls ?rest) = node_key ` set (body_stmts n @ else_stmts n)"
    by (simp add: node_decls_simps node_decls_emit_stmts image_Un image_image)
  with assms(2) have "label_of ?rest (node_key n) = None"
    by (simp only: label_of_None not_False_eq_True)
  then have "label_of (emit dump n) (node_key n)
               = label_of [NodeStmt (node_key n) (own_label dump n)] (node_key n)"
    by (simp only: e label_of_append map_add_def option.case)
  then show ?thesis
    by (simp add: label_of_def node_decls_simps)
qed

lemma distinct_rotate: "distinct (x # cs @ ts) \<Longrightarrow> distinct (ts @ cs) \<and> x \<notin> set (ts @ cs)"
  by auto

lemma label_of_construct_queue:
  assumes "distinct (map py_id (concat (map subnodes q)))"
    and "c \<in> set (concat (map subnodes q))" and "is_construct c"
  shows "label_of (concat (map (emit dump) (walk_queue q))) (node_key c) = Some (own_label dump c)"
  using assms
proof (induction q rule: walk_queue.induct)
  case 1
  then show ?case by simp
next
  case (2 node todo)
  let ?q' = "todo @ iter_child_nodes node"
  let ?W' = "concat (map (emit dump) (walk_queue ?q'))"
  have forest: "set (concat (map subnodes (node # todo))) = insert node (set (concat (map subnodes ?q')))"
    by (auto simp: subnodes_children [of node])
  let ?C = "map py_id (concat (map subnodes (iter_child_nodes node)))"
  let ?T = "map py_id (concat (map subnodes todo))"
  from "2.prems"(1) have "distinct (py_id node # ?C @ ?T)"
    by (simp add: subnodes_children [of node])
  then have "distinct (?T @ ?C)" and "py_id node \<notin> set (?T @ ?C)"
    using distinct_rotate [of "py_id node" ?C ?T] by blast+
  then have d': "distinct (map py_id (concat (map subnodes ?q')))"
    and fresh: "py_id node \<notin> py_id ` set (concat (map subnodes ?q'))"
    by (simp_all add: image_Un)
  have W: "concat (map (emit dump) (walk_queue (node # todo))) = emit dump node @ ?W'"
    by simp
  show ?case
  proof (cases "c \<in> set (concat (map subnodes ?q'))")
    case True
    from "2.IH" [OF d' True "2.prems"(3)] show ?thesis
      by (simp only: W label_of_append map_add_Some_iff) simp
  next
    case False
    with "2.prems"(2) forest have c: "c = node" by blast
    have "node_key node \<notin> node_key ` set (concat (map subnodes ?q'))"
      using fresh by (auto simp: py_str_inject)
    with decl_keys_walk [of dump ?q'] have none: "label_of ?W' (node_key node) = None"
      by (auto simp: label_of_None)
    have kids: "set (body_stmts node @ else_stmts node) \<subseteq> set (concat (map subnodes ?q'))"
      using stmts_children [of node] child_in_subnodes [of _ "iter_child_nodes node"] by auto
    then have "node_key node \<notin> node_key ` set (body_stmts node @ else_stmts node)"
      using fresh by (auto simp: py_str_inject)
    then have "label_of (emit dump node) (node_key node) = Some (own_label dump node)"
      using "2.prems"(3) c by (simp add: label_of_own)
    with none show ?thesis
      by (simp only: W c label_of_append map_add_def) simp
  qed
qed

lemma label_of_construct:
  assumes "distinct (ids t)" and "c \<in> set (subnodes t)" and "is_construct c"
  shows "label_of (body (build_cfg dump t)) (node_key c) = Some (own_label dump c)"
  using label_of_construct_queue [of "[t]" c dump] assms
  by (simp add: body_build_cfg walk_def ids_def)

lemma emit_in_body: "n \<in> set (subnodes t) \<Longrightarrow> set (emit dump n) \<subseteq> set (body (build_cfg dump t))"
  by (auto simp: body_build_cfg set_walk)

lemma own_label_not_stmt:
  "is_construct c \<Longrightarrow> ''Statement: '' @ x \<noteq> own_label dump c \<and> ''Else Statement: '' @ x \<noteq> own_label dump c"
  by (cases c) simp_all

lemma redeclared:
  assumes d: "distinct (ids t)" and c: "c \<in> set (subnodes t)" "is_construct c"
    and m: "NodeStmt (node_key c) l \<in> set (body (build_cfg dump t))" and ne: "l \<noteq> own_label dump c"
  shows "\<exists>xs ys zs. body (build_cfg dump t)
           = xs @ NodeStmt (node_key c) l # ys @ NodeStmt (node_key c) (own_label dump c) # zs
         \<and> node_key c \<notin> fst ` set (node_decls zs)"
proof -
  from label_of_last_decl [OF label_of_construct [OF d c, of dump]] obtain A zs
    where b: "body (build_cfg dump t) = A @ NodeStmt (node_key c) (own_label dump c) # zs"
      and z: "node_key c \<notin> fst ` set (node_decls zs)" by blast
  have "NodeStmt (node_key c) l \<notin> set zs"
  proof
    assume "NodeStmt (node_key c) l \<in> set zs"
    then have "(node_key c, l) \<in> set (node_decls zs)"
      by (force simp: node_decls_def)
    with z show False by force
  qed
  with m ne have "NodeStmt (node_key c) l \<in> set A"
    by (auto simp: b)
  then obtain xs ys where "A = xs @ NodeStmt (node_key c) l # ys"
    by (meson split_list)
  with b z show ?thesis by auto
qed

text \<open>
  C10. A construct \<open>c\<close> that is an immediate body or else statement of a construct
  \<open>p\<close> is declared twice under one name: first as \<^verbatim>\<open>Statement: ...\<close> (or
  \<^verbatim>\<open>Else Statement: ...\<close>) when \<open>p\<close> is visited, later with its own label when the
  walk reaches \<open>c\<close>, and no declaration of that name follows. The two labels differ,
  the graph keeps the later one, and \<open>c\<close> has the edge from \<open>p\<close> as well as its own
  edges to its statements.
\<close>

theorem nested_construct_redeclared:
  assumes "distinct (ids t)" and "p \<in> set (subnodes t)" and "is_construct c"
  shows "(c \<in> set (body_stmts p) \<longrightarrow>
            (\<exists>xs ys zs. body (build_cfg dump t)
               = xs @ NodeStmt (node_key c) (''Statement: '' @ dump c) # ys
                   @ NodeStmt (node_key c) (own_label dump c) # zs
               \<and> node_key c \<notin> fst ` set (node_decls zs)))
       \<and> (c \<in> set (else_stmts p) \<longrightarrow>
            (\<exists>xs ys zs. body (build_cfg dump t)
               = xs @ NodeStmt (node_key c) (''Else Statement: '' @ dump c) # ys
                   @ NodeStmt (node_key c) (own_label dump c) # zs
               \<and> node_key c \<notin> fst ` set (node_decls zs)))
       \<and> (c \<in> set (body_stmts p @ else_stmts p) \<longrightarrow>
            label_of (body (build_cfg dump t)) (node_key c) = Some (own_label dump c)
            \<and> ''Statement: '' @ dump c \<noteq> own_label dump c
            \<and> ''Else Statement: '' @ dump c \<noteq> own_label dump c
            \<and> (node_key p, node_key c) \<in> set (edge_list (body (build_cfg dump t)))
            \<and> (\<forall>s \<in> set (body_stmts c @ else_stmts c).
                  (node_key c, node_key s) \<in> set (edge_list (body (build_cfg dump t)))))"
proof (intro conjI impI)
  assume cb: "c \<in> set (body_stmts p)"
  then have c: "c \<in> set (subnodes t)"
    using stmt_in_subnodes [OF assms(2), of c] by simp
  have "is_construct p"
    using cb construct_of_stmt [of c p] by simp
  then have "NodeStmt (node_key c) (''Statement: '' @ dump c) \<in> set (emit dump p)"
    using cb by (auto simp: emit_def emit_stmts_def)
  then have "NodeStmt (node_key c) (''Statement: '' @ dump c) \<in> set (body (build_cfg dump t))"
    using emit_in_body [OF assms(2), of dump] by blast
  from redeclared [OF assms(1) c assms(3) this] own_label_not_stmt [OF assms(3)]
  show "\<exists>xs ys zs. body (build_cfg dump t)
               = xs @ NodeStmt (node_key c) (''Statement: '' @ dump c) # ys
                   @ NodeStmt (node_key c) (own_label dump c) # zs
               \<and> node_key c \<notin> fst ` set (node_decls zs)"
    by blast
next
  assume ce: "c \<in> set (else_stmts p)"
  then have c: "c \<in> set (subnodes t)"
    using stmt_in_subnodes [OF assms(2), of c] by simp
  have "is_construct p"
    using ce construct_of_stmt [of c p] by simp
  then have "NodeStmt (node_key c) (''Else Statement: '' @ dump c) \<in> set (emit dump p)"
    using ce by (auto simp: emit_def emit_stmts_def)
  then have "NodeStmt (node_key c) (''Else Statement: '' @ dump c) \<in> set (body (build_cfg dump t))"
    using emit_in_body [OF assms(2), of dump] by blast
  from redeclared [OF assms(1) c assms(3) this] own_label_not_stmt [OF assms(3)]
  show "\<exists>xs ys zs. body (build_cfg dump t)
               = xs @ NodeStmt (node_key c) (''Else Statement: '' @ dump c) # ys
                   @ NodeStmt (node_key c) (own_label dump c) # zs
               \<and> node_key c \<notin> fst ` set (node_decls zs)"
    by blast
next
  assume ck: "c \<in> set (body_stmts p @ else_stmts p)"
  have c: "c \<in> set (subnodes t)"
    by (rule stmt_in_subnodes [OF assms(2) ck])
  show "label_of (body (build_cfg dump t)) (node_key c) = Some (own_label dump c)"
    by (rule label_of_construct [OF assms(1) c assms(3)])
  show "''Statement: '' @ dump c \<noteq> own_label dump c"
    and "''Else Statement: '' @ dump c \<noteq> own_label dump c"
    using own_label_not_stmt [OF assms(3)] by blast+
  show "(node_key p, node_key c) \<in> set (edge_list (body (build_cfg dump t)))"
    unfolding edge_set_build using assms(2) ck by blast
  show "\<forall>s \<in> set (body_stmts c @ else_stmts c).
          (node_key c, node_key s) \<in> set (edge_list (body (build_cfg dump t)))"
    unfolding edge_set_build using c by blast
qed

theorem nested_construct_redeclared_witness:
  "distinct (ids module_if_in_while)
   \<and> (\<exists>xs ys zs. body (build_cfg dump_ast module_if_in_while)
          = xs @ NodeStmt (py_str 3) ''Statement: If(Name(),Pass(),)'' # ys
              @ NodeStmt (py_str 3) ''If Condition: Name()'' # zs
          \<and> py_str 3 \<notin> fst ` set (node_decls zs))
   \<and> label_of (body (build_cfg dump_ast module_if_in_while)) (py_str 3)
        = Some ''If Condition: Name()''
   \<and> (py_str 1, py_str 3) \<in> set (edge_list (body (build_cfg dump_ast module_if_in_while)))
   \<and> (py_str 3, py_str 5) \<in> set (edge_list (body (build_cfg dump_ast module_if_in_while)))"
proof -
  let ?c = "If_node (3::nat) (Other_node 4 ''Name'' []) [Other_node 5 ''Pass'' []] []"
  let ?p = "While_node (1::nat) (Other_node 2 ''Name'' []) [?c] []"
  have d: "distinct (ids module_if_in_while)"
    by (simp add: module_if_in_while_def ids_def)
  have p: "?p \<in> set (subnodes module_if_in_while)"
    by (simp add: module_if_in_while_def)
  have c: "is_construct ?c" "?c \<in> set (body_stmts ?p)" "?c \<in> set (body_stmts ?p @ else_stmts ?p)"
    by simp_all
  from nested_construct_redeclared [OF d p c(1), of dump_ast] c(2,3)
  show ?thesis
    using d by simp
qed

section \<open>Two runs on the same source\<close>

lemma py_id_map: "py_id (map_ast f n) = f (py_id n)"
  by (cases n) simp_all

lemma children_map: "iter_child_nodes (map_ast f n) = map (map_ast f) (iter_child_nodes n)"
  by (cases n) simp_all

lemma subnodes_map: "subnodes (map_ast f n) = map (map_ast f) (subnodes n)"
proof (induction n rule: children_induct)
  case (node n)
  have "concat (map subnodes (map (map_ast f) (iter_child_nodes n)))
          = concat (map (map (map_ast f) \<circ> subnodes) (iter_child_nodes n))"
    by (rule arg_cong [where f = concat]) (simp add: node)
  then show ?case
    by (simp add: subnodes_children [of n] subnodes_children [of "map_ast f n"] children_map
        map_concat)
qed

lemma ids_map: "ids (map_ast f n) = map f (ids n)"
  by (simp add: ids_def subnodes_map py_id_map o_def)

lemma set_ast_ids: "set_ast n = set (ids n)"
proof (induction n rule: children_induct)
  case (node n)
  have "set_ast n = insert (py_id n) (\<Union>c \<in> set (iter_child_nodes n). set_ast c)"
    by (cases n) auto
  also have "\<dots> = insert (py_id n) (\<Union>c \<in> set (iter_child_nodes n). set (ids c))"
    using node by simp
  also have "\<dots> = set (ids n)"
    by (simp add: ids_def subnodes_children [of n] image_UN)
  finally show ?case .
qed

lemma renaming_exists:
  assumes "syntax_of t1 = syntax_of t2" and "distinct (ids t1)"
  shows "\<exists>f. t2 = map_ast f t1"
proof -
  have "rel_ast (=) (map_ast (\<lambda>_. ()) t1) (map_ast (\<lambda>_. ()) t2)"
    using assms(1) by (simp add: syntax_of_def ast.rel_eq)
  then have "rel_ast (\<lambda>x y. True) t1 t2"
    by (simp add: ast.rel_map)
  then obtain z where z: "map_ast fst z = t1" "map_ast snd z = t2"
    unfolding ast.in_rel by blast
  have dz: "distinct (map fst (ids z))"
    using assms(2) z(1) ids_map [of fst z] by simp
  define f where "f i = the (map_of (ids z) i)" for i
  have "f (fst p) = snd p" if "p \<in> set_ast z" for p
  proof -
    from that have "(fst p, snd p) \<in> set (ids z)"
      by (simp add: set_ast_ids)
    with dz have "map_of (ids z) (fst p) = Some (snd p)"
      by simp
    then show ?thesis by (simp add: f_def)
  qed
  then have "map_ast (f \<circ> fst) z = map_ast snd z"
    by (intro ast.map_cong) simp_all
  then have "map_ast f (map_ast fst z) = map_ast snd z"
    by (simp only: ast.map_comp)
  then have "map_ast f t1 = t2"
    by (simp only: z)
  then show ?thesis by blast
qed

lemma rename_key_py_str: "rename_key f (py_str i) = py_str (f i)"
  by (simp add: rename_key_def decimal_value_py_str)

lemma is_construct_map: "is_construct (map_ast f n) = is_construct n"
  by (cases n) simp_all

lemma body_stmts_map: "body_stmts (map_ast f n) = map (map_ast f) (body_stmts n)"
  by (cases n) simp_all

lemma else_stmts_map: "else_stmts (map_ast f n) = map (map_ast f) (else_stmts n)"
  by (cases n) simp_all

lemma own_label_map:
  "(\<And>m. dump (map_ast f m) = dump m) \<Longrightarrow> own_label dump (map_ast f n) = own_label dump n"
  by (cases n) simp_all

lemma emit_stmts_map:
  assumes "\<And>m. dump (map_ast f m) = dump m"
  shows "emit_stmts dump prefix (rename_key f parent) (map (map_ast f) stmts)
           = map (map_dot_stmt (rename_key f)) (emit_stmts dump prefix parent stmts)"
  by (induction stmts) (simp_all add: emit_stmts_def assms py_id_map rename_key_py_str)

lemma emit_map:
  assumes "\<And>m. dump (map_ast f m) = dump m"
  shows "emit dump (map_ast f n) = map (map_dot_stmt (rename_key f)) (emit dump n)"
  using emit_stmts_map [of dump f _ "node_key n", OF assms]
  by (simp add: emit_def is_construct_map body_stmts_map else_stmts_map
      own_label_map [of dump f, OF assms] py_id_map rename_key_py_str)

lemma walk_queue_map: "walk_queue (map (map_ast f) q) = map (map_ast f) (walk_queue q)"
  by (induction q rule: walk_queue.induct) (simp_all add: children_map)

lemma body_build_map:
  assumes "\<And>m. dump (map_ast f m) = dump m"
  shows "body (build_cfg dump (map_ast f t))
           = map (map_dot_stmt (rename_key f)) (body (build_cfg dump t))"
proof -
  have "walk (map_ast f t) = map (map_ast f) (walk t)"
    using walk_queue_map [of f "[t]"] by (simp add: walk_def)
  then show ?thesis
    by (simp add: body_build_cfg map_concat o_def emit_map [of dump f, OF assms])
qed

lemma node_decls_rename:
  "node_decls (map (map_dot_stmt g) b) = map (\<lambda>d. (g (fst d), snd d)) (node_decls b)"
proof (induction b)
  case Nil
  show ?case by (simp add: node_decls_simps)
next
  case (Cons x b)
  then show ?case by (cases x) (simp_all add: node_decls_simps)
qed

lemma edge_list_rename:
  "edge_list (map (map_dot_stmt g) b) = map (\<lambda>e. (g (fst e), g (snd e))) (edge_list b)"
proof (induction b)
  case Nil
  show ?case by (simp add: edge_list_simps)
next
  case (Cons x b)
  then show ?case by (cases x) (simp_all add: edge_list_simps)
qed

lemma map_of_rename:
  "inj_on g (insert k (fst ` set ys)) \<Longrightarrow>
     map_of (map (\<lambda>d. (g (fst d), snd d)) ys) (g k) = map_of ys k"
proof (induction ys)
  case Nil
  show ?case by simp
next
  case (Cons y ys)
  from Cons.prems have "inj_on g (insert k (fst ` set ys))"
    by (auto simp: inj_on_def)
  from Cons.IH [OF this] Cons.prems show ?case
    by (auto simp: inj_on_def)
qed

lemma set_node_name_list: "set (node_name_list b) = node_names b"
  by (auto simp: node_name_list_def node_names_def)

lemma label_of_rename:
  assumes "inj_on g (node_names b)" and "k \<in> node_names b"
  shows "label_of (map (map_dot_stmt g) b) (g k) = label_of b k"
proof -
  have "insert k (fst ` set (rev (node_decls b))) \<subseteq> node_names b"
    using assms(2) by (auto simp: node_names_def)
  then have "inj_on g (insert k (fst ` set (rev (node_decls b))))"
    using assms(1) inj_on_subset by blast
  from map_of_rename [OF this] show ?thesis
    by (simp add: label_of_def node_decls_rename rev_map)
qed

lemma remdups_map_inj: "inj_on g (set xs) \<Longrightarrow> remdups (map g xs) = map g (remdups xs)"
  by (induction xs) (auto simp: inj_on_def)

lemma node_name_list_rename:
  assumes "inj_on g (node_names b)"
  shows "node_name_list (map (map_dot_stmt g) b) = map g (node_name_list b)"
proof -
  let ?xs = "map fst (node_decls b) @ map fst (edge_list b) @ map snd (edge_list b)"
  have "set ?xs = node_names b"
    by (auto simp: node_names_def)
  with assms have "inj_on g (set ?xs)" by simp
  from remdups_map_inj [OF this] show ?thesis
    by (simp add: node_name_list_def node_decls_rename edge_list_rename o_def)
qed

lemma renamed_graph_shape:
  assumes "inj_on g (node_names b)"
  shows "graph_labels (map (map_dot_stmt g) b) = graph_labels b"
    and "edge_shape (map (map_dot_stmt g) b) = edge_shape b"
    and "map snd (node_decls (map (map_dot_stmt g) b)) = map snd (node_decls b)"
    and "length (edge_list (map (map_dot_stmt g) b)) = length (edge_list b)"
proof -
  show "graph_labels (map (map_dot_stmt g) b) = graph_labels b"
    by (simp add: graph_labels_def node_name_list_rename [OF assms] o_def
        label_of_rename [OF assms] set_node_name_list)
  have "\<And>e. e \<in> set (edge_list b) \<Longrightarrow> fst e \<in> node_names b \<and> snd e \<in> node_names b"
    by (auto simp: node_names_def)
  then show "edge_shape (map (map_dot_stmt g) b) = edge_shape b"
    by (simp add: edge_shape_def edge_list_rename o_def label_of_rename [OF assms])
  show "map snd (node_decls (map (map_dot_stmt g) b)) = map snd (node_decls b)"
    by (simp add: node_decls_rename o_def)
  show "length (edge_list (map (map_dot_stmt g) b)) = length (edge_list b)"
    by (simp add: edge_list_rename)
qed

lemma node_names_ids: "node_names (body (build_cfg dump t)) \<subseteq> py_str ` set (ids t)"
proof
  fix k
  assume "k \<in> node_names (body (build_cfg dump t))"
  then obtain c where c: "c \<in> set (subnodes t)"
    and k: "k \<in> node_key ` set (c # body_stmts c @ else_stmts c)"
    unfolding node_names_build by blast
  from k obtain s where s: "k = node_key s" "s = c \<or> s \<in> set (body_stmts c @ else_stmts c)"
    by auto
  from s(2) c stmt_in_subnodes [OF c] have "s \<in> set (subnodes t)" by blast
  with s(1) show "k \<in> py_str ` set (ids t)"
    by (auto simp: ids_def)
qed

lemma rename_key_inj:
  assumes "distinct (map f (ids t))"
  shows "inj_on (rename_key f) (node_names (body (build_cfg dump t)))"
proof -
  from assms have "inj_on f (set (ids t))"
    by (simp add: distinct_map)
  then have "inj_on (rename_key f) (py_str ` set (ids t))"
    by (auto simp: inj_on_def rename_key_py_str py_str_inject)
  with node_names_ids [of dump t] show ?thesis
    using inj_on_subset by blast
qed

lemma dump_ast_map: "dump_ast (map_ast f n) = dump_ast n"
  by (induction n) (simp_all add: o_def cong: map_cong)

lemma dump_ast_syntax: "syntax_of n = syntax_of m \<Longrightarrow> dump_ast n = dump_ast m"
  by (metis dump_ast_map syntax_of_def)

text \<open>
  C7. Two runs on the same source text get trees of the same syntax whose objects have
  other identities (distinct within each run). Provided the dump of a node depends on its
  syntax only, both graphs have the same node labels (as multisets, and also statement by
  statement), the same number of edges, and edge by edge the same labels at both ends.
\<close>

theorem rerun_same_shape:
  assumes "parse1 code = Inr t1" and "parse2 code = Inr t2"
    and "syntax_of t1 = syntax_of t2"
    and "distinct (ids t1)" and "distinct (ids t2)"
    and "\<forall>n m. syntax_of n = syntax_of m \<longrightarrow> dump n = dump m"
  shows "\<exists>g1 g2. generate_cfg parse1 dump code = Inr g1 \<and> generate_cfg parse2 dump code = Inr g2
           \<and> mset (graph_labels (body g1)) = mset (graph_labels (body g2))
           \<and> map snd (node_decls (body g1)) = map snd (node_decls (body g2))
           \<and> length (edge_list (body g1)) = length (edge_list (body g2))
           \<and> edge_shape (body g1) = edge_shape (body g2)"
proof -
  from renaming_exists [OF assms(3,4)] obtain f where f: "t2 = map_ast f t1" by blast
  have "syntax_of (map_ast f m) = syntax_of m" for m :: "nat ast"
    by (simp add: syntax_of_def ast.map_comp o_def)
  with assms(6) have dump_f: "dump (map_ast f m) = dump m" for m
    by blast
  have b2: "body (build_cfg dump t2) = map (map_dot_stmt (rename_key f)) (body (build_cfg dump t1))"
    unfolding f by (rule body_build_map [of dump f, OF dump_f])
  have "distinct (map f (ids t1))"
    using assms(5) by (simp add: f ids_map)
  then have inj: "inj_on (rename_key f) (node_names (body (build_cfg dump t1)))"
    by (rule rename_key_inj)
  from renamed_graph_shape [OF inj] assms(1,2) show ?thesis
    by (simp add: generate_cfg_eq b2)
qed

theorem rerun_same_shape_witness:
  "syntax_of module_if_in_while = syntax_of module_if_in_while_rerun
   \<and> distinct (ids module_if_in_while) \<and> distinct (ids module_if_in_while_rerun)
   \<and> ids module_if_in_while \<noteq> ids module_if_in_while_rerun
   \<and> (\<exists>g1 g2. generate_cfg (\<lambda>c. Inr module_if_in_while) dump_ast ''while x: ...'' = Inr g1
         \<and> generate_cfg (\<lambda>c. Inr module_if_in_while_rerun) dump_ast ''while x: ...'' = Inr g2
         \<and> mset (graph_labels (body g1)) = mset (graph_labels (body g2))
         \<and> map snd (node_decls (body g1)) = map snd (node_decls (body g2))
         \<and> length (edge_list (body g1)) = length (edge_list (body g2))
         \<and> edge_shape (body g1) = edge_shape (body g2))"
proof -
  have s: "syntax_of module_if_in_while = syntax_of module_if_in_while_rerun"
    by (simp add: syntax_of_def module_if_in_while_def module_if_in_while_rerun_def)
  have d: "distinct (ids module_if_in_while)" "distinct (ids module_if_in_while_rerun)"
    "ids module_if_in_while \<noteq> ids module_if_in_while_rerun"
    by (simp_all add: ids_def module_if_in_while_def module_if_in_while_rerun_def)
  have dmp: "\<forall>n m :: nat ast. syntax_of n = syntax_of m \<longrightarrow> dump_ast n = dump_ast m"
    using dump_ast_syntax by blast
  have p: "(\<lambda>c. Inr module_if_in_while :: py_error + nat ast) ''while x: ...'' = Inr module_if_in_while"
    "(\<lambda>c. Inr module_if_in_while_rerun :: py_error + nat ast) ''while x: ...''
       = Inr module_if_in_while_rerun"
    by simp_all
  from rerun_same_shape [OF p s d(1,2) dmp] s d show ?thesis
    by blast
qed

section \<open>Missing input\<close>

text \<open>
  C8, as the program has it. Without an argument \<^verbatim>\<open>main\<close> prints the usage line and
  exits with status 1; with a path that is not an existing regular file it prints
  \<^verbatim>\<open>File not found: ...\<close> and exits with status 1; with a regular file that cannot
  be read the exception of \<^verbatim>\<open>open\<close> ends the run with status 1 and nothing printed.
  In all three cases no image file is written.
\<close>

theorem main_input_errors:
  "(length argv < 2 \<longrightarrow>
      main parse dump output_stages argv fs
        = \<lparr>stdout = [''Usage: python analyze_code.py <python_file>''], exit_code = 1,
           raised = None, images = []\<rparr>)
   \<and> (2 \<le> length argv \<and> \<not> os_path_isfile fs (argv ! 1) \<longrightarrow>
      main parse dump output_stages argv fs
        = \<lparr>stdout = [''File not found: '' @ argv ! 1], exit_code = 1,
           raised = None, images = []\<rparr>)
   \<and> (2 \<le> length argv \<and> os_path_isfile fs (argv ! 1) \<and> load_code fs (argv ! 1) = Inl err \<longrightarrow>
      main parse dump output_stages argv fs
        = \<lparr>stdout = [], exit_code = 1, raised = Some err, images = []\<rparr>)"
  by (simp add: main_def sys_exit_def uncaught_def Let_def)

theorem main_input_errors_counterexample:
  "load_code unreadable_fs ''secret.py'' = Inl PermissionError
   \<and> stdout (main (\<lambda>c. Inl SyntaxError) dump_ast three_images [''main.py'', ''secret.py'']
         unreadable_fs) = []
   \<and> stdout (main (\<lambda>c. Inl SyntaxError) dump_ast three_images [''main.py'', ''secret.py'']
         unreadable_fs) \<noteq> [''File not found: secret.py'']"
  by (simp add: main_def load_code_def os_path_isfile_def unreadable_fs_def uncaught_def Let_def)

theorem main_input_errors_witness:
  "main (\<lambda>c. Inl SyntaxError) dump_ast three_images [''main.py''] unreadable_fs
     = \<lparr>stdout = [''Usage: python analyze_code.py <python_file>''], exit_code = 1,
        raised = None, images = []\<rparr>
   \<and> os_path_isfile unreadable_fs ''pkg'' = False
   \<and> main (\<lambda>c. Inl SyntaxError) dump_ast three_images [''main.py'', ''pkg''] unreadable_fs
     = \<lparr>stdout = [''File not found: pkg''], exit_code = 1, raised = None, images = []\<rparr>
   \<and> os_path_isfile unreadable_fs ''secret.py'' = True
   \<and> load_code unreadable_fs ''secret.py'' = Inl PermissionError
   \<and> main (\<lambda>c. Inl SyntaxError) dump_ast three_images [''main.py'', ''secret.py''] unreadable_fs
     = \<lparr>stdout = [], exit_code = 1, raised = Some PermissionError, images = []\<rparr>"
proof -
  have h: "os_path_isfile unreadable_fs ''pkg'' = False"
    "os_path_isfile unreadable_fs ''secret.py'' = True"
    "load_code unreadable_fs ''secret.py'' = Inl PermissionError"
    by (simp_all add: os_path_isfile_def load_code_def unreadable_fs_def)
  from h main_input_errors [of "[''main.py'']" "\<lambda>c. Inl SyntaxError" dump_ast three_images
      unreadable_fs]
    main_input_errors [of "[''main.py'', ''pkg'']" "\<lambda>c. Inl SyntaxError" dump_ast three_images
      unreadable_fs]
    main_input_errors [of "[''main.py'', ''secret.py'']" "\<lambda>c. Inl SyntaxError" dump_ast
      three_images unreadable_fs PermissionError]
  show ?thesis by simp
qed

section \<open>Node names\<close>

lemma declared_nodes:
  "(\<Union>c \<in> {c \<in> set (subnodes t). is_construct c}. set (c # body_stmts c @ else_stmts c))
     = {s \<in> set (subnodes t). is_construct s \<or> is_body_stmt t s}"
proof (intro equalityI subsetI)
  fix s
  assume "s \<in> (\<Union>c \<in> {c \<in> set (subnodes t). is_construct c}. set (c # body_stmts c @ else_stmts c))"
  then obtain c where c: "c \<in> set (subnodes t)" "is_construct c"
    and s: "s = c \<or> s \<in> set (body_stmts c @ else_stmts c)"
    by auto
  from s show "s \<in> {s \<in> set (subnodes t). is_construct s \<or> is_body_stmt t s}"
  proof
    assume "s = c"
    with c show ?thesis by simp
  next
    assume k: "s \<in> set (body_stmts c @ else_stmts c)"
    then have "is_body_stmt t s"
      using c(1) by (auto simp: is_body_stmt_def list_ex_iff)
    with stmt_in_subnodes [OF c(1) k] show ?thesis by simp
  qed
next
  fix s
  assume "s \<in> {s \<in> set (subnodes t). is_construct s \<or> is_body_stmt t s}"
  then have s: "s \<in> set (subnodes t)" and d: "is_construct s \<or> is_body_stmt t s"
    by simp_all
  from d show "s \<in> (\<Union>c \<in> {c \<in> set (subnodes t). is_construct c}.
                       set (c # body_stmts c @ else_stmts c))"
  proof
    assume "is_construct s"
    with s show ?thesis by auto
  next
    assume "is_body_stmt t s"
    then obtain p where p: "p \<in> set (subnodes t)" "s \<in> set (body_stmts p @ else_stmts p)"
      by (auto simp: is_body_stmt_def list_ex_iff)
    with construct_of_stmt [OF p(2)] show ?thesis by auto
  qed
qed

lemma node_names_declared:
  "node_names (body (build_cfg dump t))
     = node_key ` {s \<in> set (subnodes t). is_construct s \<or> is_body_stmt t s}"
  unfolding node_names_build declared_nodes [symmetric] by (simp add: image_UN)

lemma node_key_inj:
  assumes "distinct (ids t)"
  shows "inj_on node_key (set (subnodes t))"
proof -
  from assms have "inj_on py_id (set (subnodes t))"
    by (simp add: ids_def distinct_map)
  then show ?thesis
    by (auto simp: inj_on_def py_str_inject)
qed

lemma label_of_snoc: "label_of (b @ [NodeStmt k l]) k = Some l"
  by (simp add: label_of_def node_decls_simps)

lemma label_of_snoc_other: "k' \<noteq> k \<Longrightarrow> label_of (b @ [NodeStmt k' l]) k = label_of b k"
  by (simp add: label_of_def node_decls_simps)

lemma node_names_snoc: "node_names (b @ [NodeStmt k l]) = insert k (node_names b)"
  by (auto simp: node_names_def node_decls_simps edge_list_simps)

text \<open>
  C5. \<^verbatim>\<open>add_cfg_node\<close> declares the syntax node in the graph under the decimal text of
  its identity, with the given label, and returns that name; the content of the node
  plays no part. Two nodes get the same name exactly when they are the same object: two
  different objects, whatever their content, become two nodes of the graph, each with
  its own label, while declaring an object a second time adds no node and only replaces
  its label. In the graph of a tree whose objects have distinct identities, the nodes
  correspond one to one to the syntax nodes that are declared (the constructs and their
  immediate statements).
\<close>

theorem node_key_from_identity:
  "add_cfg_node dot n l
     = (dot\<lparr>body := body dot @ [NodeStmt (py_str (py_id n)) l]\<rparr>, py_str (py_id n))
   \<and> (snd (add_cfg_node dot n l) = snd (add_cfg_node dot' m l') \<longleftrightarrow> py_id n = py_id m)
   \<and> (py_id n \<noteq> py_id m \<longrightarrow>
        node_key n \<noteq> node_key m
        \<and> node_names (body (fst (add_cfg_node (fst (add_cfg_node dot n l)) m l')))
            = insert (node_key m) (insert (node_key n) (node_names (body dot)))
        \<and> label_of (body (fst (add_cfg_node (fst (add_cfg_node dot n l)) m l'))) (node_key n)
            = Some l
        \<and> label_of (body (fst (add_cfg_node (fst (add_cfg_node dot n l)) m l'))) (node_key m)
            = Some l')
   \<and> node_names (body (fst (add_cfg_node (fst (add_cfg_node dot n l)) n l2)))
       = node_names (body (fst (add_cfg_node dot n l)))
   \<and> label_of (body (fst (add_cfg_node (fst (add_cfg_node dot n l)) n l2))) (node_key n) = Some l2
   \<and> (distinct (ids t) \<longrightarrow>
        inj_on node_key (set (subnodes t))
        \<and> node_names (body (build_cfg dump t))
            = node_key ` {s \<in> set (subnodes t). is_construct s \<or> is_body_stmt t s}
        \<and> card (node_names (body (build_cfg dump t)))
            = card {s \<in> set (subnodes t). is_construct s \<or> is_body_stmt t s})"
proof -
  have a: "add_cfg_node d x lb
     = (d\<lparr>body := body d @ [NodeStmt (py_str (py_id x)) lb]\<rparr>, py_str (py_id x))" for d x lb
    by (simp add: add_cfg_node_def Let_def Digraph_node_def)
  have two: "node_key n \<noteq> node_key m
        \<and> node_names (body (fst (add_cfg_node (fst (add_cfg_node dot n l)) m l')))
            = insert (node_key m) (insert (node_key n) (node_names (body dot)))
        \<and> label_of (body (fst (add_cfg_node (fst (add_cfg_node dot n l)) m l'))) (node_key n)
            = Some l
        \<and> label_of (body (fst (add_cfg_node (fst (add_cfg_node dot n l)) m l'))) (node_key m)
            = Some l'" if "py_id n \<noteq> py_id m"
    using that
    by (simp add: a py_str_inject node_names_snoc label_of_snoc label_of_snoc_other
        del: append_assoc add: append_assoc [symmetric])
  have again: "node_names (body (fst (add_cfg_node (fst (add_cfg_node dot n l)) n l2)))
       = node_names (body (fst (add_cfg_node dot n l)))"
    "label_of (body (fst (add_cfg_node (fst (add_cfg_node dot n l)) n l2))) (node_key n) = Some l2"
    by (simp_all add: a node_names_snoc label_of_snoc del: append_assoc
        add: append_assoc [symmetric])
  have tree: "inj_on node_key (set (subnodes t))
        \<and> node_names (body (build_cfg dump t))
            = node_key ` {s \<in> set (subnodes t). is_construct s \<or> is_body_stmt t s}
        \<and> card (node_names (body (build_cfg dump t)))
            = card {s \<in> set (subnodes t). is_construct s \<or> is_body_stmt t s}"
    if d: "distinct (ids t)"
  proof -
    have i: "inj_on node_key (set (subnodes t))"
      by (rule node_key_inj [OF d])
    then have "inj_on node_key {s \<in> set (subnodes t). is_construct s \<or> is_body_stmt t s}"
      by (rule inj_on_subset) blast
    then show ?thesis
      using i by (simp add: node_names_declared card_image)
  qed
  have same: "snd (add_cfg_node dot n l) = snd (add_cfg_node dot' m l') \<longleftrightarrow> py_id n = py_id m"
    by (simp add: a py_str_inject)
  from a [of dot n l] same two again tree show ?thesis
    by blast
qed

theorem node_key_from_identity_witness:
  "body (fst (add_cfg_node (Digraph ''g'') (Other_node 1 ''Pass'' []) ''Statement: Pass()''))
     = [NodeStmt (py_str 1) ''Statement: Pass()'']
   \<and> snd (add_cfg_node (Digraph ''g'') (Other_node 1 ''Pass'' []) ''Statement: Pass()'')
     \<noteq> snd (add_cfg_node (Digraph ''g'') (Other_node 2 ''Pass'' []) ''Statement: Pass()'')
   \<and> node_names (body (fst (add_cfg_node
          (fst (add_cfg_node (Digraph ''g'') (Other_node 1 ''Pass'' []) ''Statement: Pass()''))
          (Other_node 2 ''Pass'' []) ''Statement: Pass()'')))
       = {py_str 2, py_str 1}
   \<and> label_of (body (fst (add_cfg_node
          (fst (add_cfg_node (Digraph ''g'') (Other_node 1 ''Pass'' []) ''Statement: Pass()''))
          (Other_node 1 ''Pass'' []) ''While Loop: x''))) (py_str 1) = Some ''While Loop: x''
   \<and> distinct (ids module_one_function)
   \<and> card (node_names (body (build_cfg dump_ast module_one_function))) = 3"
proof -
  let ?D = "Digraph ''g''"
  let ?P1 = "Other_node (1::nat) ''Pass'' []"
  let ?P2 = "Other_node (2::nat) ''Pass'' []"
  let ?L = "''Statement: Pass()''"
  let ?L2 = "''While Loop: x''"
  let ?S = "{s \<in> set (subnodes module_one_function).
             is_construct s \<or> is_body_stmt module_one_function s}"
  have d: "distinct (ids module_one_function)"
    by (simp add: module_one_function_def ids_def)
  have ne: "py_id ?P1 \<noteq> py_id ?P2"
    by simp
  have c: "?S = {FunctionDef 1 ''f'' (Other_node 2 ''arguments'' [])
                [Other_node 3 ''Pass'' [], Other_node 4 ''Pass'' []] [],
              Other_node 3 ''Pass'' [], Other_node 4 ''Pass'' []}"
    by (auto simp: module_one_function_def is_body_stmt_def)
  have c3: "card ?S = 3"
    by (simp add: c)
  have e: "node_names (body ?D) = {}"
    by (simp add: Digraph_def node_names_def node_decls_simps edge_list_simps)
  note T = node_key_from_identity [of ?D ?P1 ?L ?D ?P2 ?L ?L2 module_one_function dump_ast]
  from T have f0: "add_cfg_node ?D ?P1 ?L
      = (?D\<lparr>body := body ?D @ [NodeStmt (py_str (py_id ?P1)) ?L]\<rparr>, py_str (py_id ?P1))"
    by blast
  from T ne have f1: "snd (add_cfg_node ?D ?P1 ?L) \<noteq> snd (add_cfg_node ?D ?P2 ?L)"
    by blast
  from T ne have f2: "node_names (body (fst (add_cfg_node (fst (add_cfg_node ?D ?P1 ?L)) ?P2 ?L)))
      = insert (node_key ?P2) (insert (node_key ?P1) (node_names (body ?D)))"
    by blast
  from T have f3: "label_of (body (fst (add_cfg_node (fst (add_cfg_node ?D ?P1 ?L)) ?P1 ?L2)))
      (node_key ?P1) = Some ?L2"
    by blast
  from T d have f4: "card (node_names (body (build_cfg dump_ast module_one_function))) = card ?S"
    by blast
  have w0: "body (fst (add_cfg_node ?D ?P1 ?L)) = [NodeStmt (py_str 1) ?L]"
    using f0 by (simp add: Digraph_def)
  have w2: "node_names (body (fst (add_cfg_node (fst (add_cfg_node ?D ?P1 ?L)) ?P2 ?L)))
      = {py_str 2, py_str 1}"
    using f2 e by simp
  have w3: "label_of (body (fst (add_cfg_node (fst (add_cfg_node ?D ?P1 ?L)) ?P1 ?L2)))
      (py_str 1) = Some ?L2"
    using f3 by simp
  have w4: "card (node_names (body (build_cfg dump_ast module_one_function))) = 3"
    by (simp only: f4 c3)
  from w0 f1 w2 w3 d w4 show ?thesis
    by blast
qed

end
